theory Spec2Isabelle
  imports Complex_Main "HOL-Library.AList"
begin

section \<open>The node and graph model\<close>

text \<open>
  The declarations of \<^verbatim>\<open>types.ts\<close> (ShaderNode, Connection, ShaderGraph, CompiledPass)
  are read off the fields that \<^verbatim>\<open>shader-graph.ts\<close>, \<^verbatim>\<open>blend-node.ts\<close> and the test files
  use.  A JavaScript object used as a dictionary (\<^verbatim>\<open>Record<string, T>\<close>) and a
  JavaScript \<^verbatim>\<open>Map\<close> are association lists in insertion order; looking a key up is
  \<^const>\<open>map_of\<close>.  A connection's two endpoints \<^verbatim>\<open>from: {nodeId, output}\<close> and
  \<^verbatim>\<open>to: {nodeId, input}\<close> are flattened into four fields.

  A \<^verbatim>\<open>ParamDef\<close> is the one kind of object the builder writes to after it was created
  (\<^verbatim>\<open>node.params[key].value = value\<close>), so it is kept by reference: the \<^verbatim>\<open>params\<close> of a
  node map each name to the address of a \<^verbatim>\<open>ParamDef\<close> object, and the objects themselves
  live in a store.  The shallow copy \<^verbatim>\<open>{ ...node }\<close> of \<^verbatim>\<open>addNode\<close> copies the addresses,
  not the objects.  Parameter values are numbers, strings and booleans.
\<close>

type_synonym addr = nat

datatype param_value = PNum real | PStr string | PBool bool

record param_def =
  param_type :: string
  param_value :: param_value
  param_default :: param_value
  param_min :: "real option"
  param_max :: "real option"

record node_input =
  input_name :: string
  input_type :: string
  input_required :: bool

record node_output =
  output_name :: string
  output_type :: string

datatype node_type = Source | Effect | Blend | Transform | Output

record shader_node =
  node_id :: string
  node_type :: node_type
  node_name :: string
  node_inputs :: "(string \<times> node_input) list"
  node_outputs :: "(string \<times> node_output) list"
  node_params :: "(string \<times> addr) list"

record connection =
  conn_id :: string
  from_nodeId :: string
  from_output :: string
  to_nodeId :: string
  to_input :: string

text \<open>The private fields of class \<^verbatim>\<open>ShaderGraphBuilder\<close>.\<close>

record builder =
  nodes :: "(string \<times> shader_node) list"
  connections :: "connection list"
  graphId :: string

text \<open>
  Every \<^verbatim>\<open>throw new Error(...)\<close> of \<^verbatim>\<open>shader-graph.ts\<close>, one constructor per throw
  site, carrying what the message interpolates; and the \<^verbatim>\<open>TypeError\<close> of an assignment to
  a property of a primitive.
\<close>

datatype error =
    NodeAlreadyExists string
  | NodeNotFound string
  | SourceNodeNotFound string
  | TargetNodeNotFound string
  | OutputNotFound string string
  | InputNotFound string string
  | WouldCreateCycle
  | CycleDetected
  | PropertyOfPrimitive string

definition new_builder :: "string \<Rightarrow> builder" where
  "new_builder gid = \<lparr>nodes = [], connections = [], graphId = gid\<rparr>"

subsection \<open>Node management\<close>

text \<open>
  \<^verbatim>\<open>addNode\<close>: \<^verbatim>\<open>Map.set\<close> on a key that is absent appends the entry, so the key order
  of the map is the order of insertion.
\<close>

definition addNode :: "builder \<Rightarrow> shader_node \<Rightarrow> error + builder" where
  "addNode b node =
     (if map_of (nodes b) (node_id node) \<noteq> None then Inl (NodeAlreadyExists (node_id node))
      else Inr (b\<lparr>nodes := nodes b @ [(node_id node, node)]\<rparr>))"

definition removeNode :: "builder \<Rightarrow> string \<Rightarrow> bool \<times> builder" where
  "removeNode b nodeId =
     (if map_of (nodes b) nodeId = None then (False, b)
      else (True,
            b\<lparr>connections :=
                 filter (\<lambda>conn. from_nodeId conn \<noteq> nodeId \<and> to_nodeId conn \<noteq> nodeId)
                   (connections b),
               nodes := filter (\<lambda>kv. fst kv \<noteq> nodeId) (nodes b)\<rparr>))"

definition getNode :: "builder \<Rightarrow> string \<Rightarrow> shader_node option" where
  "getNode b nodeId = map_of (nodes b) nodeId"

definition getNodes :: "builder \<Rightarrow> shader_node list" where
  "getNodes b = map snd (nodes b)"

text \<open>
  The objects \<^verbatim>\<open>updateNodeParams\<close> can reach and write: the \<^verbatim>\<open>ParamDef\<close> objects, by
  address; and, because \<^verbatim>\<open>node.params[key]\<close> is looked up through the prototype chain of
  the plain object \<^verbatim>\<open>node.params\<close>, the object \<^verbatim>\<open>Object.prototype\<close> and the built-in
  functions it holds.  Of these only the property \<^verbatim>\<open>value\<close> is ever written, so the store
  records that property alone: \<open>builtin_value name\<close> is the \<^verbatim>\<open>value\<close> property of the
  function \<^verbatim>\<open>Object.prototype[name]\<close>, and \<open>prototype_value\<close> is
  \<^verbatim>\<open>Object.prototype.value\<close>; \<open>None\<close> is an absent property.
\<close>

record object_store =
  param_objects :: "addr \<Rightarrow> param_def"
  builtin_value :: "string \<Rightarrow> param_value option"
  prototype_value :: "param_value option"

text \<open>The names of the functions every plain object inherits from \<^verbatim>\<open>Object.prototype\<close>.\<close>

definition object_prototype_functions :: "string list" where
  "object_prototype_functions =
     [''constructor'', ''__defineGetter__'', ''__defineSetter__'', ''hasOwnProperty'',
      ''__lookupGetter__'', ''__lookupSetter__'', ''isPrototypeOf'', ''propertyIsEnumerable'',
      ''toString'', ''valueOf'', ''toLocaleString'']"

text \<open>
  What \<^verbatim>\<open>node.params[key]\<close> evaluates to: the \<^verbatim>\<open>ParamDef\<close> of an own property; else what
  the prototype chain gives: \<^verbatim>\<open>Object.prototype\<close> itself for the accessor \<^verbatim>\<open>__proto__\<close>, a
  built-in function, or the primitive stored in \<^verbatim>\<open>Object.prototype.value\<close>; else
  \<^verbatim>\<open>undefined\<close>, which is \<open>None\<close>.
\<close>

datatype js_value =
    ParamObject addr
  | ObjectPrototype
  | BuiltinFunction string
  | Primitive param_value

definition get_param :: "object_store \<Rightarrow> shader_node \<Rightarrow> string \<Rightarrow> js_value option" where
  "get_param store node key =
     (case map_of (node_params node) key of
        Some a \<Rightarrow> Some (ParamObject a)
      | None \<Rightarrow>
          if key = ''__proto__'' then Some ObjectPrototype
          else if key \<in> set object_prototype_functions then Some (BuiltinFunction key)
          else if key = ''value'' then map_option Primitive (prototype_value store)
          else None)"

text \<open>Truthiness: objects and functions are truthy; of the primitives \<^verbatim>\<open>0\<close>, the empty
  string and \<^verbatim>\<open>false\<close> are not.\<close>

fun truthy :: "js_value \<Rightarrow> bool" where
  "truthy (Primitive (PNum x)) = (x \<noteq> 0)"
| "truthy (Primitive (PStr str)) = (str \<noteq> [])"
| "truthy (Primitive (PBool flag)) = flag"
| "truthy _ = True"

text \<open>
  The assignment \<^verbatim>\<open>target.value = v\<close>.  On an object it writes the property.  On a
  primitive it throws a \<^verbatim>\<open>TypeError\<close>, the file being a module and so strict code.
\<close>

fun set_value :: "object_store \<Rightarrow> js_value \<Rightarrow> param_value \<Rightarrow> object_store option" where
  "set_value store (ParamObject a) v =
     Some (store\<lparr>param_objects := (param_objects store)(a := (param_objects store a)\<lparr>param_value := v\<rparr>)\<rparr>)"
| "set_value store ObjectPrototype v = Some (store\<lparr>prototype_value := Some v\<rparr>)"
| "set_value store (BuiltinFunction name) v =
     Some (store\<lparr>builtin_value := (builtin_value store)(name \<mapsto> v)\<rparr>)"
| "set_value store (Primitive p) v = None"

text \<open>
  The loop of \<^verbatim>\<open>updateNodeParams\<close> over \<^verbatim>\<open>Object.entries(params)\<close>.  It returns the error
  thrown, if any, and the store as the loop leaves it.
\<close>

fun update_entries ::
  "object_store \<Rightarrow> shader_node \<Rightarrow> (string \<times> param_value) list \<Rightarrow> error option \<times> object_store"
where
  "update_entries store node [] = (None, store)"
| "update_entries store node ((key, v) # rest) =
     (case get_param store node key of
        None \<Rightarrow> update_entries store node rest
      | Some target \<Rightarrow>
          if truthy target then
            (case set_value store target v of
               None \<Rightarrow> (Some (PropertyOfPrimitive key), store)
             | Some store1 \<Rightarrow> update_entries store1 node rest)
          else update_entries store node rest)"

text \<open>
  \<^verbatim>\<open>updateNodeParams\<close> assigns neither to the node map nor to the connection list nor to
  a field of a node: all it writes is the store.  It returns the error thrown, if any,
  the store, and the builder as it was.
\<close>

definition updateNodeParams ::
  "object_store \<Rightarrow> builder \<Rightarrow> string \<Rightarrow> (string \<times> param_value) list
     \<Rightarrow> error option \<times> object_store \<times> builder"
where
  "updateNodeParams store b nodeId params =
     (case map_of (nodes b) nodeId of
        None \<Rightarrow> (Some (NodeNotFound nodeId), store, b)
      | Some node \<Rightarrow>
          (case update_entries store node params of
             (thrown, store1) \<Rightarrow> (thrown, store1, b)))"

subsection \<open>Connection management\<close>

definition getConnections :: "builder \<Rightarrow> connection list" where
  "getConnections b = connections b"

definition getInputConnections :: "builder \<Rightarrow> string \<Rightarrow> connection list" where
  "getInputConnections b nodeId = filter (\<lambda>c. to_nodeId c = nodeId) (connections b)"

definition getOutputConnections :: "builder \<Rightarrow> string \<Rightarrow> connection list" where
  "getOutputConnections b nodeId = filter (\<lambda>c. from_nodeId c = nodeId) (connections b)"

text \<open>
  The closure \<^verbatim>\<open>canReach\<close> of \<^verbatim>\<open>wouldCreateCycle\<close>.  The set \<^verbatim>\<open>visited\<close> it shares
  between its calls is passed in and returned; \<open>canReach_outgoing\<close> is its
  \<^verbatim>\<open>for (const conn of outgoing)\<close> loop.
\<close>

function canReach ::
    "connection list \<Rightarrow> string \<Rightarrow> string \<Rightarrow> string set \<Rightarrow> bool \<times> string set"
  and canReach_outgoing ::
    "connection list \<Rightarrow> connection list \<Rightarrow> string \<Rightarrow> string set \<Rightarrow> bool \<times> string set"
where
  "canReach conns start target visited =
     (if start = target then (True, visited)
      else if start \<in> visited then (False, visited)
      else canReach_outgoing conns (filter (\<lambda>c. from_nodeId c = start) conns) target
             (insert start visited))"
| "canReach_outgoing conns [] target visited = (False, visited)"
| "canReach_outgoing conns (conn # rest) target visited =
     (case canReach conns (to_nodeId conn) target visited of
        (found, visited1) \<Rightarrow>
          if found then (True, visited1)
          else canReach_outgoing conns rest target visited1)"
  by pat_completeness auto

lemma canReach_visited_mono_dom:
  "canReach_canReach_outgoing_dom (Inl (conns, start, target, visited)) \<Longrightarrow>
     (\<And>r v. canReach conns start target visited = (r, v) \<Longrightarrow> visited \<subseteq> v)"
  "canReach_canReach_outgoing_dom (Inr (conns, out, target, visited)) \<Longrightarrow>
     (\<And>r v. canReach_outgoing conns out target visited = (r, v) \<Longrightarrow> visited \<subseteq> v)"
proof (induction conns start target visited and conns out target visited
       rule: canReach_canReach_outgoing.pinduct)
  case (1 conns start target visited)
  show ?case
  proof (cases "start = target \<or> start \<in> visited")
    case True
    with 1(1,3) show ?thesis by (auto simp: canReach.psimps split: if_splits)
  next
    case False
    then have ne: "start \<noteq> target" "start \<notin> visited" by auto
    from 1(3) ne have
      "canReach_outgoing conns (filter (\<lambda>c. from_nodeId c = start) conns) target
         (insert start visited) = (r, v)"
      by (simp add: canReach.psimps[OF 1(1)])
    from 1(2)[OF ne this] show ?thesis by auto
  qed
next
  case (2 conns target visited)
  then show ?case by (simp add: canReach_outgoing.psimps)
next
  case (3 conns conn rest target visited)
  obtain found visited1 where
    s1: "canReach conns (to_nodeId conn) target visited = (found, visited1)"
    by (cases "canReach conns (to_nodeId conn) target visited")
  have m1: "visited \<subseteq> visited1" using 3(2)[OF s1] .
  show ?case
  proof (cases found)
    case True
    with 3(1,4) s1 have "v = visited1" by (simp add: canReach_outgoing.psimps)
    with m1 show ?thesis by simp
  next
    case False
    with 3(1,4) s1 have "canReach_outgoing conns rest target visited1 = (r, v)"
      by (simp add: canReach_outgoing.psimps)
    from 3(3)[OF s1[symmetric] False this] m1 show ?thesis by auto
  qed
qed

termination canReach
proof (relation "inv_image (less_than <*lex*> less_than)
     (\<lambda>x. case x of
        Inl (conns, start, target, visited) \<Rightarrow>
          (card (insert start (to_nodeId ` set conns) - visited), 0)
      | Inr (conns, out, target, visited) \<Rightarrow>
          (card ((to_nodeId ` set conns \<union> to_nodeId ` set out) - visited),
           Suc (length out)))", goal_cases)
  case 1
  show ?case by (intro wf_inv_image wf_lex_prod wf_less_than)
next
  case (2 conns start target visited)
  let ?T = "to_nodeId ` set conns"
  have "(?T \<union> to_nodeId ` set (filter (\<lambda>c. from_nodeId c = start) conns)) - insert start visited
        \<subset> insert start ?T - visited"
    using 2 by auto
  then have "card ((?T \<union> to_nodeId ` set (filter (\<lambda>c. from_nodeId c = start) conns))
                    - insert start visited)
        < card (insert start ?T - visited)"
    by (intro psubset_card_mono) auto
  then show ?case by simp
next
  case (3 conns conn rest target visited)
  let ?T = "to_nodeId ` set conns"
  have "card (insert (to_nodeId conn) ?T - visited)
        \<le> card ((?T \<union> to_nodeId ` set (conn # rest)) - visited)"
    by (intro card_mono) auto
  then show ?case by auto
next
  case (4 conns conn rest target visited found visited1)
  let ?T = "to_nodeId ` set conns"
  have m: "visited \<subseteq> visited1"
    using canReach_visited_mono_dom(1)[OF 4(3) 4(1)[symmetric]] .
  have "card ((?T \<union> to_nodeId ` set rest) - visited1)
        \<le> card ((?T \<union> to_nodeId ` set (conn # rest)) - visited)"
    using m by (intro card_mono) auto
  then show ?case by auto
qed

definition wouldCreateCycle :: "builder \<Rightarrow> connection \<Rightarrow> bool" where
  "wouldCreateCycle b newConnection =
     fst (canReach (connections b) (to_nodeId newConnection) (from_nodeId newConnection) {})"


text \<open>
  The module-level \<^verbatim>\<open>connectionIdCounter\<close> is shared by all builders, so \<open>connect\<close>
  takes its value and returns the new one; \<open>string_of_nat\<close> is the decimal numeral a
  template literal prints.
\<close>

definition digit_char :: "nat \<Rightarrow> char" where
  "digit_char d = ''0123456789'' ! d"

fun string_of_nat :: "nat \<Rightarrow> string" where
  "string_of_nat n =
     (if n < 10 then [digit_char n]
      else string_of_nat (n div 10) @ [digit_char (n mod 10)])"

declare string_of_nat.simps [simp del]

text \<open>
  \<^verbatim>\<open>connect\<close> returns what the call returns or throws, the counter and the builder as
  the call leaves them: an exception does not undo the assignments made before it.  A
  port exists when the node declares it, that is, when it is an own property of
  \<^verbatim>\<open>outputs\<close> or \<^verbatim>\<open>inputs\<close>.
\<close>

definition connect ::
  "nat \<Rightarrow> builder \<Rightarrow> string \<Rightarrow> string \<Rightarrow> string \<Rightarrow> string \<Rightarrow> (error + string) \<times> nat \<times> builder"
where
  "connect counter b fromNodeId fromOutput toNodeId toInput =
     (case map_of (nodes b) fromNodeId of
        None \<Rightarrow> (Inl (SourceNodeNotFound fromNodeId), counter, b)
      | Some fromNode \<Rightarrow>
          (case map_of (nodes b) toNodeId of
             None \<Rightarrow> (Inl (TargetNodeNotFound toNodeId), counter, b)
           | Some toNode \<Rightarrow>
               if map_of (node_outputs fromNode) fromOutput = None
               then (Inl (OutputNotFound fromOutput fromNodeId), counter, b)
               else if map_of (node_inputs toNode) toInput = None
               then (Inl (InputNotFound toInput toNodeId), counter, b)
               else
                 (let b1 =
                        (case find (\<lambda>c. to_nodeId c = toNodeId \<and> to_input c = toInput)
                                (connections b) of
                           None \<Rightarrow> b
                         | Some existingConn \<Rightarrow>
                             b\<lparr>connections :=
                                  filter (\<lambda>c. conn_id c \<noteq> conn_id existingConn)
                                    (connections b)\<rparr>);
                      counter1 = Suc counter;
                      connection =
                        \<lparr>conn_id = ''conn-'' @ string_of_nat counter1,
                         from_nodeId = fromNodeId, from_output = fromOutput,
                         to_nodeId = toNodeId, to_input = toInput\<rparr>
                  in if wouldCreateCycle b1 connection
                     then (Inl WouldCreateCycle, counter1, b1)
                     else (Inr (conn_id connection), counter1,
                           b1\<lparr>connections := connections b1 @ [connection]\<rparr>))))"

fun findIndex :: "('a \<Rightarrow> bool) \<Rightarrow> 'a list \<Rightarrow> nat option" where
  "findIndex P [] = None"
| "findIndex P (x # xs) = (if P x then Some 0 else map_option Suc (findIndex P xs))"

text \<open>\<^verbatim>\<open>disconnect\<close>: \<^verbatim>\<open>splice(index, 1)\<close> removes the one element at \<open>index\<close>.\<close>

definition disconnect :: "builder \<Rightarrow> string \<Rightarrow> bool \<times> builder" where
  "disconnect b connectionId =
     (case findIndex (\<lambda>c. conn_id c = connectionId) (connections b) of
        None \<Rightarrow> (False, b)
      | Some index \<Rightarrow>
          (True, b\<lparr>connections :=
                     take index (connections b) @ drop (Suc index) (connections b)\<rparr>))"

subsection \<open>Topology\<close>

text \<open>
  The three local variables of \<^verbatim>\<open>getTopologicallySorted\<close> that its closure
  \<^verbatim>\<open>visit\<close> reads and writes.  \<open>visit_inputs\<close> is the
  \<^verbatim>\<open>for (const conn of inputConns)\<close> loop of \<^verbatim>\<open>visit\<close>, \<open>visit_keys\<close> the loop over
  \<^verbatim>\<open>this.nodes.keys()\<close>.  A throw leaves through every loop, so the first
  \<open>Inl\<close> is the result.
\<close>

record sort_state =
  result :: "shader_node list"
  visited :: "string set"
  visiting :: "string set"

function visit :: "builder \<Rightarrow> string \<Rightarrow> sort_state \<Rightarrow> error + sort_state"
  and visit_inputs :: "builder \<Rightarrow> connection list \<Rightarrow> sort_state \<Rightarrow> error + sort_state"
where
  "visit b nodeId st =
     (if nodeId \<in> visited st then Inr st
      else if nodeId \<in> visiting st then Inl CycleDetected
      else
        (case visit_inputs b (getInputConnections b nodeId)
                 (st\<lparr>visiting := insert nodeId (visiting st)\<rparr>) of
           Inl e \<Rightarrow> Inl e
         | Inr st1 \<Rightarrow>
             (let st2 = st1\<lparr>visiting := visiting st1 - {nodeId},
                            visited := insert nodeId (visited st1)\<rparr>
              in Inr (case map_of (nodes b) nodeId of
                        None \<Rightarrow> st2
                      | Some node \<Rightarrow> st2\<lparr>result := result st2 @ [node]\<rparr>))))"
| "visit_inputs b [] st = Inr st"
| "visit_inputs b (conn # conns) st =
     (case visit b (from_nodeId conn) st of
        Inl e \<Rightarrow> Inl e
      | Inr st1 \<Rightarrow> visit_inputs b conns st1)"
  by pat_completeness auto

lemma visit_visiting_dom:
  "visit_visit_inputs_dom (Inl (b, n, st)) \<Longrightarrow>
     (\<And>st'. visit b n st = Inr st' \<Longrightarrow> visiting st' = visiting st)"
  "visit_visit_inputs_dom (Inr (b, cs, st)) \<Longrightarrow>
     (\<And>st'. visit_inputs b cs st = Inr st' \<Longrightarrow> visiting st' = visiting st)"
proof (induction b n st and b cs st rule: visit_visit_inputs.pinduct)
  case (1 b nodeId st)
  show ?case
  proof (cases "nodeId \<in> visited st \<or> nodeId \<in> visiting st")
    case True
    with 1(1,3) show ?thesis by (auto simp: visit.psimps split: if_splits)
  next
    case False
    then have nv: "nodeId \<notin> visited st" "nodeId \<notin> visiting st" by auto
    from 1(3) nv obtain st1 where
      s1: "visit_inputs b (getInputConnections b nodeId)
             (st\<lparr>visiting := insert nodeId (visiting st)\<rparr>) = Inr st1"
      by (simp add: visit.psimps[OF 1(1)] split: sum.splits)
    have v1: "visiting st1 = insert nodeId (visiting st)"
      using 1(2)[OF nv s1] by simp
    from 1(3) nv s1 have "visiting st' = visiting st1 - {nodeId}"
      by (auto simp: visit.psimps[OF 1(1)] Let_def split: option.splits)
    with v1 nv show ?thesis by auto
  qed
next
  case (2 b st)
  then show ?case by (simp add: visit_inputs.psimps)
next
  case (3 b conn conns st)
  from 3(1,4) obtain st1 where s1: "visit b (from_nodeId conn) st = Inr st1"
    and s2: "visit_inputs b conns st1 = Inr st'"
    by (simp add: visit_inputs.psimps split: sum.splits)
  from 3(2)[OF s1] 3(3)[OF s1 s2] show ?case by simp
qed

termination visit
proof (relation "inv_image (less_than <*lex*> less_than)
     (\<lambda>x. case x of
        Inl (b, n, st) \<Rightarrow>
          (card (insert n (from_nodeId ` set (connections b)) - visiting st), 0)
      | Inr (b, cs, st) \<Rightarrow>
          (card ((from_nodeId ` set (connections b) \<union> from_nodeId ` set cs) - visiting st),
           Suc (length cs)))", goal_cases)
  case 1
  show ?case by (intro wf_inv_image wf_lex_prod wf_less_than)
next
  case (2 b nodeId st)
  let ?F = "from_nodeId ` set (connections b)"
  have sub: "from_nodeId ` set (getInputConnections b nodeId) \<subseteq> ?F"
    by (auto simp: getInputConnections_def)
  have "(?F \<union> from_nodeId ` set (getInputConnections b nodeId)) - insert nodeId (visiting st)
        \<subset> insert nodeId ?F - visiting st"
    using sub 2 by auto
  then have "card ((?F \<union> from_nodeId ` set (getInputConnections b nodeId))
                    - insert nodeId (visiting st))
        < card (insert nodeId ?F - visiting st)"
    by (intro psubset_card_mono) auto
  then show ?case by simp
next
  case (3 b conn conns st)
  let ?F = "from_nodeId ` set (connections b)"
  have "card (insert (from_nodeId conn) ?F - visiting st)
        \<le> card ((?F \<union> from_nodeId ` set (conn # conns)) - visiting st)"
    by (intro card_mono) auto
  then show ?case by auto
next
  case (4 b conn conns st st1)
  let ?F = "from_nodeId ` set (connections b)"
  have v: "visiting st1 = visiting st"
    using visit_visiting_dom(1)[OF 4(2) 4(1)] .
  have "card ((?F \<union> from_nodeId ` set conns) - visiting st)
        \<le> card ((?F \<union> from_nodeId ` set (conn # conns)) - visiting st)"
    by (intro card_mono) auto
  then show ?case using v by auto
qed

declare visit.simps [simp del]
declare canReach.simps [simp del]

fun visit_keys :: "builder \<Rightarrow> string list \<Rightarrow> sort_state \<Rightarrow> error + sort_state" where
  "visit_keys b [] st = Inr st"
| "visit_keys b (nodeId # rest) st =
     (case visit b nodeId st of
        Inl e \<Rightarrow> Inl e
      | Inr st1 \<Rightarrow> visit_keys b rest st1)"

definition getTopologicallySorted :: "builder \<Rightarrow> error + shader_node list" where
  "getTopologicallySorted b =
     (case visit_keys b (map fst (nodes b)) \<lparr>result = [], visited = {}, visiting = {}\<rparr> of
        Inl e \<Rightarrow> Inl e
      | Inr st \<Rightarrow> Inr (result st))"

subsection \<open>Serialization\<close>

record graph_json =
  json_id :: string
  json_nodes :: "shader_node list"
  json_connections :: "connection list"

definition toJSON :: "builder \<Rightarrow> graph_json" where
  "toJSON b = \<lparr>json_id = graphId b, json_nodes = getNodes b, json_connections = getConnections b\<rparr>"

text \<open>The two loops of \<^verbatim>\<open>fromJSON\<close>: \<^verbatim>\<open>addNode\<close> per node, then a plain \<^verbatim>\<open>push\<close> per connection.\<close>

fun add_nodes :: "builder \<Rightarrow> shader_node list \<Rightarrow> error + builder" where
  "add_nodes b [] = Inr b"
| "add_nodes b (node # rest) =
     (case addNode b node of
        Inl e \<Rightarrow> Inl e
      | Inr b1 \<Rightarrow> add_nodes b1 rest)"

fun push_connections :: "builder \<Rightarrow> connection list \<Rightarrow> builder" where
  "push_connections b [] = b"
| "push_connections b (conn # rest) =
     push_connections (b\<lparr>connections := connections b @ [conn]\<rparr>) rest"

definition fromJSON :: "graph_json \<Rightarrow> error + builder" where
  "fromJSON data =
     (case add_nodes (new_builder (json_id data)) (json_nodes data) of
        Inl e \<Rightarrow> Inl e
      | Inr b \<Rightarrow> Inr (push_connections b (json_connections data)))"


section \<open>Blend nodes\<close>

text \<open>
  The WGSL functions of \<^verbatim>\<open>BLEND_FUNCTIONS_WGSL\<close> in \<^verbatim>\<open>blend-node.ts\<close>.  A \<^verbatim>\<open>vec4f\<close> is
  a record of its four components, an \<^verbatim>\<open>f32\<close> an exact real number.  Arithmetic on
  \<^verbatim>\<open>.rgb\<close> works component by component; \<^verbatim>\<open>select(f, t, cond)\<close> is \<^verbatim>\<open>t\<close> where the
  condition holds and \<^verbatim>\<open>f\<close> elsewhere.
\<close>

record vec4f =
  cr :: real
  cg :: real
  cb :: real
  ca :: real

definition per_channel :: "(real \<Rightarrow> real \<Rightarrow> real) \<Rightarrow> vec4f \<Rightarrow> vec4f \<Rightarrow> real \<Rightarrow> vec4f" where
  "per_channel f base blend alpha =
     \<lparr>cr = f (cr base) (cr blend), cg = f (cg base) (cg blend), cb = f (cb base) (cb blend),
      ca = alpha\<rparr>"

definition blend_normal :: "vec4f \<Rightarrow> vec4f \<Rightarrow> vec4f" where
  "blend_normal base blend = blend"

definition blend_multiply :: "vec4f \<Rightarrow> vec4f \<Rightarrow> vec4f" where
  "blend_multiply base blend = per_channel (\<lambda>x y. x * y) base blend (ca blend)"

definition blend_screen :: "vec4f \<Rightarrow> vec4f \<Rightarrow> vec4f" where
  "blend_screen base blend = per_channel (\<lambda>x y. 1 - (1 - x) * (1 - y)) base blend (ca blend)"

definition blend_overlay :: "vec4f \<Rightarrow> vec4f \<Rightarrow> vec4f" where
  "blend_overlay base blend =
     per_channel (\<lambda>x y. if x < 1 / 2 then 2 * x * y else 1 - 2 * (1 - x) * (1 - y))
       base blend (ca blend)"

definition blend_add :: "vec4f \<Rightarrow> vec4f \<Rightarrow> vec4f" where
  "blend_add base blend = per_channel (\<lambda>x y. min (x + y) 1) base blend (ca blend)"

definition blend_subtract :: "vec4f \<Rightarrow> vec4f \<Rightarrow> vec4f" where
  "blend_subtract base blend = per_channel (\<lambda>x y. max (x - y) 0) base blend (ca blend)"

definition blend_difference :: "vec4f \<Rightarrow> vec4f \<Rightarrow> vec4f" where
  "blend_difference base blend = per_channel (\<lambda>x y. \<bar>x - y\<bar>) base blend (ca blend)"

definition blend_darken :: "vec4f \<Rightarrow> vec4f \<Rightarrow> vec4f" where
  "blend_darken base blend = per_channel (\<lambda>x y. min x y) base blend (ca blend)"

definition blend_lighten :: "vec4f \<Rightarrow> vec4f \<Rightarrow> vec4f" where
  "blend_lighten base blend = per_channel (\<lambda>x y. max x y) base blend (ca blend)"

definition blend_color_dodge :: "vec4f \<Rightarrow> vec4f \<Rightarrow> vec4f" where
  "blend_color_dodge base blend =
     per_channel (\<lambda>x y. if y \<ge> 1 then 1 else min (x / (1 - y)) 1) base blend (ca blend)"

definition blend_color_burn :: "vec4f \<Rightarrow> vec4f \<Rightarrow> vec4f" where
  "blend_color_burn base blend =
     per_channel (\<lambda>x y. if y \<le> 0 then 0 else 1 - min ((1 - x) / y) 1) base blend (ca blend)"

definition blend_hard_light :: "vec4f \<Rightarrow> vec4f \<Rightarrow> vec4f" where
  "blend_hard_light base blend =
     per_channel (\<lambda>x y. if y < 1 / 2 then 2 * x * y else 1 - 2 * (1 - x) * (1 - y))
       base blend (ca blend)"

definition blend_soft_light :: "vec4f \<Rightarrow> vec4f \<Rightarrow> vec4f" where
  "blend_soft_light base blend =
     per_channel
       (\<lambda>x y. if y > 1 / 2 then x - (1 - 2 * y) * x * (1 - x)
              else x + (2 * y - 1) * (sqrt x - x))
       base blend (ca blend)"

definition alpha_composite_over :: "vec4f \<Rightarrow> vec4f \<Rightarrow> vec4f" where
  "alpha_composite_over base blend =
     (let outAlpha = ca blend + ca base * (1 - ca blend)
      in if outAlpha \<le> 0 then \<lparr>cr = 0, cg = 0, cb = 0, ca = 0\<rparr>
         else per_channel (\<lambda>x y. (y * ca blend + x * ca base * (1 - ca blend)) / outAlpha)
                base blend outAlpha)"

definition alpha_composite_under :: "vec4f \<Rightarrow> vec4f \<Rightarrow> vec4f" where
  "alpha_composite_under base blend = alpha_composite_over blend base"

datatype blend_mode =
    Normal | Multiply | Screen | Overlay | Add | Subtract | Difference | Darken | Lighten
  | ColorDodge | ColorBurn | HardLight | SoftLight

text \<open>\<^verbatim>\<open>getBlendModeCode\<close>: the WGSL function a mode names.\<close>

fun getBlendModeCode :: "blend_mode \<Rightarrow> vec4f \<Rightarrow> vec4f \<Rightarrow> vec4f" where
  "getBlendModeCode Normal = blend_normal"
| "getBlendModeCode Multiply = blend_multiply"
| "getBlendModeCode Screen = blend_screen"
| "getBlendModeCode Overlay = blend_overlay"
| "getBlendModeCode Add = blend_add"
| "getBlendModeCode Subtract = blend_subtract"
| "getBlendModeCode Difference = blend_difference"
| "getBlendModeCode Darken = blend_darken"
| "getBlendModeCode Lighten = blend_lighten"
| "getBlendModeCode ColorDodge = blend_color_dodge"
| "getBlendModeCode ColorBurn = blend_color_burn"
| "getBlendModeCode HardLight = blend_hard_light"
| "getBlendModeCode SoftLight = blend_soft_light"

text \<open>
  The \<^verbatim>\<open>main\<close> body of the shader that \<^verbatim>\<open>createBlendNode\<close> emits, as a function of the
  two sampled colours and of the uniform \<^verbatim>\<open>params.opacity\<close>.
\<close>

definition blend_shader_main :: "blend_mode \<Rightarrow> real \<Rightarrow> vec4f \<Rightarrow> vec4f \<Rightarrow> vec4f" where
  "blend_shader_main mode opacity baseColor blendColor =
     (let blended = getBlendModeCode mode baseColor blendColor;
          finalBlend = \<lparr>cr = cr blended, cg = cg blended, cb = cb blended,
                        ca = ca blended * opacity\<rparr>
      in alpha_composite_over baseColor finalBlend)"


section \<open>The pass merger\<close>

text \<open>
  Modelled from the spec: the record \<^verbatim>\<open>CompiledPass\<close> of the missing \<^verbatim>\<open>types.ts\<close>: id,
  ordered list of contributing node ids, one shader, ordered list of named inputs, one
  output, and a flat map from uniform names to values.  These are the fields the passes
  of \<^verbatim>\<open>pass-merger.test.ts\<close> have.  The source file \<^verbatim>\<open>pass-merger.ts\<close> itself is missing;
  every function of this section is modelled from section 4.4 of the spec.
\<close>

record compiled_pass =
  pass_id :: string
  pass_nodes :: "string list"
  pass_shader :: string
  pass_inputs :: "string list"
  pass_output :: string
  pass_uniforms :: "(string \<times> param_value) list"

datatype merge_category = CatColor | CatTransform | CatBlur | CatBlend | CatUnknown

text \<open>\<^verbatim>\<open>String.prototype.includes\<close>: \<open>sub\<close> occurs somewhere in the string.\<close>

fun str_includes :: "string \<Rightarrow> string \<Rightarrow> bool" where
  "str_includes [] sub = (sub = [])"
| "str_includes (c # cs) sub = (take (length sub) (c # cs) = sub \<or> str_includes cs sub)"

text \<open>
  Modelled from the spec: \<^verbatim>\<open>getNodeCategory\<close> of the missing \<^verbatim>\<open>pass-merger.ts\<close>.  The
  spec: classification is name-pattern based: color (brightness, contrast, saturation,
  opacity and compound color-math names), transform (scale, rotate, translate,
  transform, flip, crop), blur (any name containing "blur"), blend (any name
  containing "blend"), else unknown.  A pattern matches a name that contains it, which
  is what the tests expect of \<^verbatim>\<open>brightness-contrast\<close> and of the node id
  \<^verbatim>\<open>brightness-1\<close>.
\<close>

definition getNodeCategory :: "string \<Rightarrow> merge_category" where
  "getNodeCategory name =
     (if list_ex (str_includes name) [''brightness'', ''contrast'', ''saturation'', ''opacity'']
      then CatColor
      else if list_ex (str_includes name)
                [''scale'', ''rotate'', ''translate'', ''transform'', ''flip'', ''crop'']
      then CatTransform
      else if str_includes name ''blur'' then CatBlur
      else if str_includes name ''blend'' then CatBlend
      else CatUnknown)"

text \<open>
  Modelled from the spec: \<^verbatim>\<open>getPassCategory\<close> of the missing \<^verbatim>\<open>pass-merger.ts\<close>: the
  category of the first categorizable contributing node, or unknown if none match.
\<close>

definition getPassCategory :: "compiled_pass \<Rightarrow> merge_category" where
  "getPassCategory p =
     (case filter (\<lambda>c. c \<noteq> CatUnknown) (map getNodeCategory (pass_nodes p)) of
        [] \<Rightarrow> CatUnknown
      | c # _ \<Rightarrow> c)"

text \<open>
  Modelled from the spec: \<^verbatim>\<open>canMergePasses\<close> of the missing \<^verbatim>\<open>pass-merger.ts\<close>: B's
  inputs is exactly the single-element list of A's output, A's category equals B's,
  and that category is not unknown.
\<close>

definition canMergePasses :: "compiled_pass \<Rightarrow> compiled_pass \<Rightarrow> bool" where
  "canMergePasses passA passB =
     (pass_inputs passB = [pass_output passA]
      \<and> getPassCategory passA = getPassCategory passB
      \<and> getPassCategory passA \<noteq> CatUnknown)"

text \<open>
  Modelled from the spec: \<^verbatim>\<open>mergeShaderCode\<close> of the missing \<^verbatim>\<open>pass-merger.ts\<close>: the
  merged shader source concatenates A's and B's code blocks in order.
\<close>

definition mergeShaderCode :: "string \<Rightarrow> string \<Rightarrow> string" where
  "mergeShaderCode shaderA shaderB = shaderA @ shaderB"

text \<open>
  Modelled from the spec: the namespacing of uniforms by pass index in the missing
  \<^verbatim>\<open>pass-merger.ts\<close>: every uniform name gets the prefix of its pass.
\<close>

definition namespace_uniforms ::
  "string \<Rightarrow> (string \<times> param_value) list \<Rightarrow> (string \<times> param_value) list"
where
  "namespace_uniforms prefix us = map (\<lambda>(name, v). (prefix @ name, v)) us"

text \<open>
  Modelled from the spec: \<^verbatim>\<open>mergeTwoPasses\<close> of the missing \<^verbatim>\<open>pass-merger.ts\<close>: nodes
  are A's followed by B's, inputs are A's, the output is B's, the id is
  \<^verbatim>\<open>merged-{A.id}-{B.id}\<close>, and the uniforms are the union of A's and B's namespaced
  by pass index, \<^verbatim>\<open>pass0_<name>\<close> and \<^verbatim>\<open>pass1_<name>\<close>.
\<close>

definition mergeTwoPasses :: "compiled_pass \<Rightarrow> compiled_pass \<Rightarrow> compiled_pass" where
  "mergeTwoPasses passA passB =
     \<lparr>pass_id = ''merged-'' @ pass_id passA @ ''-'' @ pass_id passB,
      pass_nodes = pass_nodes passA @ pass_nodes passB,
      pass_shader = mergeShaderCode (pass_shader passA) (pass_shader passB),
      pass_inputs = pass_inputs passA,
      pass_output = pass_output passB,
      pass_uniforms =
        namespace_uniforms ''pass0_'' (pass_uniforms passA)
        @ namespace_uniforms ''pass1_'' (pass_uniforms passB)\<rparr>"

text \<open>
  Modelled from the spec: \<^verbatim>\<open>PassMerger.merge\<close> of the missing \<^verbatim>\<open>pass-merger.ts\<close>:
  merging is applied greedily left to right across the whole pass sequence,
  re-checking eligibility against the newly merged pass before considering the next
  candidate; passes are never reordered.  \<open>merge_from current rest\<close> holds the pass
  being grown and the passes not yet considered.
\<close>

fun merge_from :: "compiled_pass \<Rightarrow> compiled_pass list \<Rightarrow> compiled_pass list" where
  "merge_from current [] = [current]"
| "merge_from current (candidate # rest) =
     (if canMergePasses current candidate
      then merge_from (mergeTwoPasses current candidate) rest
      else current # merge_from candidate rest)"

text \<open>
  Modelled from the spec: the result of \<^verbatim>\<open>PassMerger.merge\<close> in the missing
  \<^verbatim>\<open>pass-merger.ts\<close>, with the three fields the tests read; \<^verbatim>\<open>mergedCount\<close> is the
  number of passes saved.
\<close>

record merge_result =
  passes :: "compiled_pass list"
  mergedCount :: nat
  originalCount :: nat

definition merge :: "compiled_pass list \<Rightarrow> merge_result" where
  "merge ps =
     (let merged = (case ps of [] \<Rightarrow> [] | p # rest \<Rightarrow> merge_from p rest)
      in \<lparr>passes = merged, mergedCount = length ps - length merged,
          originalCount = length ps\<rparr>)"

section \<open>Properties stated about the graph builder\<close>

text \<open>
  The directed graph of a builder: one edge from the producer to the consumer of every
  connection.  The connection set is acyclic when this relation is.
\<close>

definition edge_rel :: "connection list \<Rightarrow> (string \<times> string) set" where
  "edge_rel conns = (\<lambda>c. (from_nodeId c, to_nodeId c)) ` set conns"

definition edges :: "builder \<Rightarrow> (string \<times> string) set" where
  "edges b = (\<lambda>c. (from_nodeId c, to_nodeId c)) ` set (connections b)"

text \<open>
  What a \<^verbatim>\<open>Map\<close> filled by \<^verbatim>\<open>this.nodes.set(node.id, ...)\<close> always satisfies: keys are
  unique, and each node is stored under its own id.
\<close>

definition nodes_wf :: "builder \<Rightarrow> bool" where
  "nodes_wf b \<longleftrightarrow>
     distinct (map fst (nodes b)) \<and> list_all (\<lambda>(k, node). node_id node = k) (nodes b)"

definition precedes :: "'a list \<Rightarrow> 'a \<Rightarrow> 'a \<Rightarrow> bool" where
  "precedes xs x y \<longleftrightarrow> (\<exists>ys zs. xs = ys @ y # zs \<and> x \<in> set ys)"

text \<open>
  The invariant of the depth-first traversal: no node is both finished and in
  progress; every producer of a finished node is finished; the result lists exactly
  the stored nodes among the finished ones, each once; and a stored producer stands in
  the result before its consumer.
\<close>

definition sort_inv :: "builder \<Rightarrow> sort_state \<Rightarrow> bool" where
  "sort_inv b st \<longleftrightarrow>
     visited st \<inter> visiting st = {}
     \<and> (\<forall>c \<in> set (connections b). to_nodeId c \<in> visited st \<longrightarrow> from_nodeId c \<in> visited st)
     \<and> distinct (map node_id (result st))
     \<and> set (result st) = {node. \<exists>k \<in> visited st. map_of (nodes b) k = Some node}
     \<and> (\<forall>c \<in> set (connections b).
           to_nodeId c \<in> node_id ` set (result st) \<and> from_nodeId c \<in> fst ` set (nodes b) \<longrightarrow>
           precedes (map node_id (result st)) (from_nodeId c) (to_nodeId c))"

text \<open>
  At most one connection targets an input: no two entries of the connection list have
  the same pair of target node and input port.
\<close>

definition input_target :: "connection \<Rightarrow> string \<times> string" where
  "input_target c = (to_nodeId c, to_input c)"

definition single_input_connections :: "connection list \<Rightarrow> bool" where
  "single_input_connections conns = distinct (map input_target conns)"

subsection \<open>The nodes of the builder's test file\<close>

text \<open>
  \<^verbatim>\<open>createSourceNode\<close>, \<^verbatim>\<open>createEffectNode\<close> and \<^verbatim>\<open>createOutputNode\<close> of
  \<^verbatim>\<open>shader-graph.test.ts\<close>; the examples below are built from them.  An effect node has
  one parameter, \<^verbatim>\<open>value\<close>; \<open>createEffectNode\<close> takes the address of the \<^verbatim>\<open>ParamDef\<close> object
  the call creates, and \<open>effect_value_param\<close> is that object.
\<close>

definition texture_input :: "string \<times> node_input" where
  "texture_input =
     (''input'', \<lparr>input_name = ''input'', input_type = ''texture'', input_required = True\<rparr>)"

definition texture_output :: "string \<times> node_output" where
  "texture_output = (''output'', \<lparr>output_name = ''output'', output_type = ''texture''\<rparr>)"

definition createSourceNode :: "string \<Rightarrow> shader_node" where
  "createSourceNode i =
     \<lparr>node_id = i, node_type = Source, node_name = ''Source'', node_inputs = [],
      node_outputs = [texture_output], node_params = []\<rparr>"

definition createEffectNode :: "string \<Rightarrow> string \<Rightarrow> addr \<Rightarrow> shader_node" where
  "createEffectNode i name a =
     \<lparr>node_id = i, node_type = Effect, node_name = name, node_inputs = [texture_input],
      node_outputs = [texture_output], node_params = [(''value'', a)]\<rparr>"

definition effect_value_param :: param_def where
  "effect_value_param =
     \<lparr>param_type = ''number'', param_value = PNum 0, param_default = PNum 0,
      param_min = Some (- 1), param_max = Some 1\<rparr>"

definition createOutputNode :: "string \<Rightarrow> shader_node" where
  "createOutputNode i =
     \<lparr>node_id = i, node_type = Output, node_name = ''Output'', node_inputs = [texture_input],
      node_outputs = [], node_params = []\<rparr>"


subsection \<open>Examples\<close>

text \<open>
  A chain source, effect, output whose nodes were added in the reverse order, so that
  the key order of the map is not a topological order.
\<close>

definition example_chain :: builder where
  "example_chain =
     \<lparr>nodes = [(''output-1'', createOutputNode ''output-1''),
               (''effect-1'', createEffectNode ''effect-1'' ''Brightness'' 1),
               (''source-1'', createSourceNode ''source-1'')],
      connections =
        [\<lparr>conn_id = ''conn-1'', from_nodeId = ''source-1'', from_output = ''output'',
          to_nodeId = ''effect-1'', to_input = ''input''\<rparr>,
         \<lparr>conn_id = ''conn-2'', from_nodeId = ''effect-1'', from_output = ''output'',
          to_nodeId = ''output-1'', to_input = ''input''\<rparr>],
      graphId = ''graph-1''\<rparr>"

text \<open>
  A serialized graph with one node and two dangling connections: the producer of the
  first and the consumer of the second are not among its nodes.  \<open>dangling_builder\<close>
  is the builder \<^verbatim>\<open>fromJSON\<close> makes of it.
\<close>

definition dangling_json :: graph_json where
  "dangling_json =
     \<lparr>json_id = ''graph-1'',
      json_nodes = [createEffectNode ''effect-1'' ''Brightness'' 1],
      json_connections =
        [\<lparr>conn_id = ''conn-1'', from_nodeId = ''ghost-in'', from_output = ''output'',
          to_nodeId = ''effect-1'', to_input = ''input''\<rparr>,
         \<lparr>conn_id = ''conn-2'', from_nodeId = ''effect-1'', from_output = ''output'',
          to_nodeId = ''ghost-out'', to_input = ''input''\<rparr>]\<rparr>"

definition dangling_builder :: builder where
  "dangling_builder =
     \<lparr>nodes = [(''effect-1'', createEffectNode ''effect-1'' ''Brightness'' 1)],
      connections = json_connections dangling_json,
      graphId = ''graph-1''\<rparr>"

text \<open>
  The builder of the test \<^verbatim>\<open>should detect cycles\<close>, whose first effect node has a second
  input \<^verbatim>\<open>input2\<close>, with a source node connected to that input.
\<close>

definition two_input_effect :: shader_node where
  "two_input_effect =
     (createEffectNode ''effect-1'' ''Brightness'' 1)
       \<lparr>node_inputs :=
          [texture_input,
           (''input2'', \<lparr>input_name = ''input2'', input_type = ''texture'',
                         input_required = False\<rparr>)]\<rparr>"

definition source_to_input2 :: connection where
  "source_to_input2 =
     \<lparr>conn_id = ''conn-1'', from_nodeId = ''source-1'', from_output = ''output'',
      to_nodeId = ''effect-1'', to_input = ''input2''\<rparr>"

definition effect1_to_effect2 :: connection where
  "effect1_to_effect2 =
     \<lparr>conn_id = ''conn-2'', from_nodeId = ''effect-1'', from_output = ''output'',
      to_nodeId = ''effect-2'', to_input = ''input''\<rparr>"

definition cycle_attempt :: builder where
  "cycle_attempt =
     \<lparr>nodes = [(''source-1'', createSourceNode ''source-1''),
               (''effect-1'', two_input_effect),
               (''effect-2'', createEffectNode ''effect-2'' ''Contrast'' 2)],
      connections = [source_to_input2, effect1_to_effect2],
      graphId = ''graph-1''\<rparr>"


text \<open>
  The passes the tests of \<^verbatim>\<open>pass-merger.test.ts\<close> build: a chain of three colour passes,
  a blend pass with two inputs, and a transform pass.
\<close>

definition brightness_pass :: compiled_pass where
  "brightness_pass =
     \<lparr>pass_id = ''pass-0'', pass_nodes = [''brightness-1''], pass_shader = ''shader-a'',
      pass_inputs = [''source''], pass_output = ''temp-1'',
      pass_uniforms = [(''amount'', PNum (6 / 5))]\<rparr>"

definition contrast_pass :: compiled_pass where
  "contrast_pass =
     \<lparr>pass_id = ''pass-1'', pass_nodes = [''contrast-1''], pass_shader = ''shader-b'',
      pass_inputs = [''temp-1''], pass_output = ''temp-2'',
      pass_uniforms = [(''amount'', PNum (3 / 2))]\<rparr>"

definition saturation_pass :: compiled_pass where
  "saturation_pass =
     \<lparr>pass_id = ''pass-2'', pass_nodes = [''saturation-1''], pass_shader = ''shader-c'',
      pass_inputs = [''temp-2''], pass_output = ''screen'',
      pass_uniforms = [(''saturation'', PNum (4 / 5))]\<rparr>"

definition blend_pass :: compiled_pass where
  "blend_pass =
     \<lparr>pass_id = ''pass-1'', pass_nodes = [''blend-1''], pass_shader = ''shader-b'',
      pass_inputs = [''temp-1'', ''other-source''], pass_output = ''temp-2'',
      pass_uniforms = []\<rparr>"

definition scale_pass :: compiled_pass where
  "scale_pass =
     \<lparr>pass_id = ''pass-1'', pass_nodes = [''scale-1''], pass_shader = ''shader-b'',
      pass_inputs = [''temp-1''], pass_output = ''temp-2'',
      pass_uniforms = []\<rparr>"

text \<open>
  A store in which every \<^verbatim>\<open>ParamDef\<close> object is the one an effect node is created with
  and \<^verbatim>\<open>Object.prototype\<close> is untouched; and the builder after
  \<^verbatim>\<open>addNode(effect1); addNode({ ...effect1, id: 'effect-2' }); addNode(effect3)\<close>, whose
  first two nodes refer to the same \<^verbatim>\<open>ParamDef\<close> object and whose third node has two
  parameters, \<^verbatim>\<open>low\<close> and \<^verbatim>\<open>high\<close>, that are one object.
\<close>

definition example_store :: object_store where
  "example_store =
     \<lparr>param_objects = (\<lambda>a. effect_value_param), builtin_value = (\<lambda>name. None),
      prototype_value = None\<rparr>"

definition copied_effect :: shader_node where
  "copied_effect = (createEffectNode ''effect-1'' ''Brightness'' 1)\<lparr>node_id := ''effect-2''\<rparr>"

definition twin_param_effect :: shader_node where
  "twin_param_effect =
     (createEffectNode ''effect-3'' ''Levels'' 3)\<lparr>node_params := [(''low'', 3), (''high'', 3)]\<rparr>"

definition shared_params_builder :: builder where
  "shared_params_builder =
     \<lparr>nodes = [(''effect-1'', createEffectNode ''effect-1'' ''Brightness'' 1),
               (''effect-2'', copied_effect),
               (''effect-3'', twin_param_effect)],
      connections = [], graphId = ''graph-1''\<rparr>"

section \<open>Parameters: \<^verbatim>\<open>updateNodeParams\<close>\<close>

lemma map_of_Some_key: "map_of xs k = Some v \<Longrightarrow> k \<in> fst ` set xs"
  by (force dest: map_of_SomeD)


lemma get_param_prototype:
  "prototype_value store1 = prototype_value store \<Longrightarrow> get_param store1 node key = get_param store node key"
  by (simp add: get_param_def split: option.splits)

lemma get_param_own:
  "map_of (node_params node) key = Some a \<Longrightarrow> get_param store node key = Some (ParamObject a)"
  by (simp add: get_param_def)

lemma map_of_same_object:
  assumes "distinct (map snd ps)" "map_of ps k = Some a" "map_of ps k' = Some a"
  shows "k = k'"
proof -
  from assms(2,3) have "(k, a) \<in> set ps" "(k', a) \<in> set ps" by (auto dest: map_of_SomeD)
  with assms(1) show ?thesis
    by (metis distinct_map inj_onD snd_conv fst_conv)
qed

lemma update_entries_declared:
  assumes objs: "distinct (map snd (node_params node))"
  shows "distinct (map fst es) \<Longrightarrow>
     \<forall>key \<in> fst ` set es. key \<in> fst ` set (node_params node) \<or> get_param store node key = None \<Longrightarrow>
     \<exists>store'. update_entries store node es = (None, store')
       \<and> builtin_value store' = builtin_value store
       \<and> prototype_value store' = prototype_value store
       \<and> (\<forall>a. a \<notin> snd ` set (node_params node) \<longrightarrow> param_objects store' a = param_objects store a)
       \<and> (\<forall>key a. map_of (node_params node) key = Some a \<longrightarrow>
             param_objects store' a =
               (case map_of es key of
                  None \<Rightarrow> param_objects store a
                | Some v \<Rightarrow> (param_objects store a)\<lparr>param_value := v\<rparr>))"
proof (induction es arbitrary: store)
  case Nil
  then show ?case by simp
next
  case (Cons e es)
  obtain k v where e: "e = (k, v)" by (cases e)
  from Cons.prems(1) e have dist: "distinct (map fst es)" and fresh: "map_of es k = None"
    by (auto simp: map_of_eq_None_iff)
  show ?case
  proof (cases "map_of (node_params node) k")
    case None
    then have "k \<notin> fst ` set (node_params node)" by (simp add: map_of_eq_None_iff)
    with Cons.prems(2) e have skip: "get_param store node k = None" by auto
    have res: "\<forall>key \<in> fst ` set es.
                 key \<in> fst ` set (node_params node) \<or> get_param store node key = None"
      using Cons.prems(2) by simp
    from Cons.IH[OF dist res] obtain store' where
      r: "update_entries store node es = (None, store')"
      and b: "builtin_value store' = builtin_value store"
      and p: "prototype_value store' = prototype_value store"
      and o: "\<forall>a. a \<notin> snd ` set (node_params node) \<longrightarrow> param_objects store' a = param_objects store a"
      and w: "\<forall>key a. map_of (node_params node) key = Some a \<longrightarrow>
             param_objects store' a =
               (case map_of es key of
                  None \<Rightarrow> param_objects store a
                | Some v \<Rightarrow> (param_objects store a)\<lparr>param_value := v\<rparr>)"
      by blast
    have r': "update_entries store node (e # es) = (None, store')"
      using r skip e by simp
    have w': "\<forall>key a. map_of (node_params node) key = Some a \<longrightarrow>
             param_objects store' a =
               (case map_of (e # es) key of
                  None \<Rightarrow> param_objects store a
                | Some v \<Rightarrow> (param_objects store a)\<lparr>param_value := v\<rparr>)"
    proof (intro allI impI)
      fix key a assume ka: "map_of (node_params node) key = Some a"
      with None have "key \<noteq> k" by auto
      then have "map_of (e # es) key = map_of es key" using e by simp
      with w ka show "param_objects store' a =
               (case map_of (e # es) key of
                  None \<Rightarrow> param_objects store a
                | Some v \<Rightarrow> (param_objects store a)\<lparr>param_value := v\<rparr>)"
        by simp
    qed
    from r' b p o w' show ?thesis by blast
  next
    case (Some a0)
    let ?store1 = "store\<lparr>param_objects :=
                      (param_objects store)(a0 := (param_objects store a0)\<lparr>param_value := v\<rparr>)\<rparr>"
    have g: "get_param store node k = Some (ParamObject a0)" using Some by (rule get_param_own)
    have "get_param ?store1 node key = get_param store node key" for key
      by (rule get_param_prototype) simp
    then have res: "\<forall>key \<in> fst ` set es.
                 key \<in> fst ` set (node_params node) \<or> get_param ?store1 node key = None"
      using Cons.prems(2) by simp
    from Cons.IH[OF dist res] obtain store' where
      r: "update_entries ?store1 node es = (None, store')"
      and b: "builtin_value store' = builtin_value ?store1"
      and p: "prototype_value store' = prototype_value ?store1"
      and o: "\<forall>a. a \<notin> snd ` set (node_params node) \<longrightarrow> param_objects store' a = param_objects ?store1 a"
      and w: "\<forall>key a. map_of (node_params node) key = Some a \<longrightarrow>
             param_objects store' a =
               (case map_of es key of
                  None \<Rightarrow> param_objects ?store1 a
                | Some v \<Rightarrow> (param_objects ?store1 a)\<lparr>param_value := v\<rparr>)"
      by blast
    have r': "update_entries store node (e # es) = (None, store')"
      using r g e by simp
    have a0in: "a0 \<in> snd ` set (node_params node)"
      using Some by (force dest: map_of_SomeD)
    have o': "\<forall>a. a \<notin> snd ` set (node_params node) \<longrightarrow> param_objects store' a = param_objects store a"
    proof (intro allI impI)
      fix a assume "a \<notin> snd ` set (node_params node)"
      moreover from this a0in have "a \<noteq> a0" by auto
      ultimately show "param_objects store' a = param_objects store a" using o by simp
    qed
    have w': "\<forall>key a. map_of (node_params node) key = Some a \<longrightarrow>
             param_objects store' a =
               (case map_of (e # es) key of
                  None \<Rightarrow> param_objects store a
                | Some v \<Rightarrow> (param_objects store a)\<lparr>param_value := v\<rparr>)"
    proof (intro allI impI)
      fix key a assume ka: "map_of (node_params node) key = Some a"
      show "param_objects store' a =
               (case map_of (e # es) key of
                  None \<Rightarrow> param_objects store a
                | Some v \<Rightarrow> (param_objects store a)\<lparr>param_value := v\<rparr>)"
      proof (cases "key = k")
        case True
        with ka Some have "a = a0" by simp
        with w ka True fresh e show ?thesis by simp
      next
        case False
        have "a \<noteq> a0"
        proof
          assume "a = a0"
          with ka Some map_of_same_object[OF objs] have "key = k" by blast
          with False show False by simp
        qed
        with w ka False e show ?thesis by (simp split: option.splits)
      qed
    qed
    from r' b p o' w' show ?thesis by simp
  qed
qed

text \<open>
  Claim C9 fails on the code.  A node added as a copy of another shares its
  \<^verbatim>\<open>ParamDef\<close> objects, so that updating \<^verbatim>\<open>effect-1\<close> changes the value that \<^verbatim>\<open>effect-2\<close>
  reads: one half instead of zero.  Two parameters of one node that are the same object
  change together: updating \<^verbatim>\<open>low\<close> of \<^verbatim>\<open>effect-3\<close> sets its \<^verbatim>\<open>high\<close>.  And a key that no
  node declares but every object inherits, such as \<^verbatim>\<open>toString\<close>, is not ignored: the
  value is written to the built-in function.
\<close>

theorem updateNodeParams_shared_counterexample:
  "add_nodes (new_builder ''graph-1'')
       [createEffectNode ''effect-1'' ''Brightness'' 1, copied_effect, twin_param_effect]
     = Inr shared_params_builder
   \<and> getNode shared_params_builder ''effect-2'' = Some copied_effect
   \<and> map_of (node_params copied_effect) ''value'' = Some 1
   \<and> param_value (param_objects example_store 1) = PNum 0
   \<and> fst (updateNodeParams example_store shared_params_builder ''effect-1''
             [(''value'', PNum (1 / 2))]) = None
   \<and> param_value
        (param_objects
           (fst (snd (updateNodeParams example_store shared_params_builder ''effect-1''
                        [(''value'', PNum (1 / 2))]))) 1) = PNum (1 / 2)
   \<and> getNode shared_params_builder ''effect-3'' = Some twin_param_effect
   \<and> map_of (node_params twin_param_effect) ''high'' = Some 3
   \<and> param_value (param_objects example_store 3) = PNum 0
   \<and> param_value
        (param_objects
           (fst (snd (updateNodeParams example_store shared_params_builder ''effect-3''
                        [(''low'', PNum 1)]))) 3) = PNum 1
   \<and> ''toString'' \<notin> fst ` set (node_params (createEffectNode ''effect-1'' ''Brightness'' 1))
   \<and> builtin_value example_store ''toString'' = None
   \<and> fst (updateNodeParams example_store shared_params_builder ''effect-1''
             [(''toString'', PNum 1)]) = None
   \<and> builtin_value
        (fst (snd (updateNodeParams example_store shared_params_builder ''effect-1''
                     [(''toString'', PNum 1)]))) ''toString'' = Some (PNum 1)"
  by (simp add: shared_params_builder_def copied_effect_def twin_param_effect_def
        example_store_def effect_value_param_def createEffectNode_def new_builder_def
        addNode_def getNode_def updateNodeParams_def get_param_def
        object_prototype_functions_def)

text \<open>
  Claim C9 as amended.  Let a stored node refer to pairwise distinct \<^verbatim>\<open>ParamDef\<close>
  objects, and let every key of the params object (its keys are distinct) be declared
  by the node or else not be found through the prototype chain of \<^verbatim>\<open>node.params\<close>.
  Then \<^verbatim>\<open>updateNodeParams\<close> raises no error; the \<^verbatim>\<open>ParamDef\<close> object of a declared
  parameter \<open>k\<close> gets the value \<open>v\<close> when the params object has the entry \<open>(k, v)\<close> and
  is unchanged otherwise; the other keys are ignored: no object that the node does not
  refer to changes, \<^verbatim>\<open>Object.prototype\<close> and its functions included; so every stored node
  that shares no \<^verbatim>\<open>ParamDef\<close> object with the updated one keeps all its parameters.  The
  builder is returned as it was: same node map, same connection list.
\<close>

theorem updateNodeParams_writes_declared:
  assumes stored: "map_of (nodes b) nodeId = Some node"
    and objs: "distinct (map snd (node_params node))"
    and keys: "distinct (map fst params)"
    and resolved: "\<forall>key \<in> fst ` set params.
                     key \<in> fst ` set (node_params node) \<or> get_param store node key = None"
  shows "\<exists>store'.
      updateNodeParams store b nodeId params = (None, store', b)
    \<and> (\<forall>key a. map_of (node_params node) key = Some a \<longrightarrow>
          param_objects store' a =
            (case map_of params key of
               None \<Rightarrow> param_objects store a
             | Some v \<Rightarrow> (param_objects store a)\<lparr>param_value := v\<rparr>))
    \<and> (\<forall>a. a \<notin> snd ` set (node_params node) \<longrightarrow> param_objects store' a = param_objects store a)
    \<and> (\<forall>other \<in> snd ` set (nodes b).
          snd ` set (node_params other) \<inter> snd ` set (node_params node) = {} \<longrightarrow>
          (\<forall>a \<in> snd ` set (node_params other). param_objects store' a = param_objects store a))
    \<and> builtin_value store' = builtin_value store
    \<and> prototype_value store' = prototype_value store"
proof -
  from update_entries_declared[OF objs keys resolved] obtain store' where
    r: "update_entries store node params = (None, store')"
    and b: "builtin_value store' = builtin_value store"
    and p: "prototype_value store' = prototype_value store"
    and o: "\<forall>a. a \<notin> snd ` set (node_params node) \<longrightarrow> param_objects store' a = param_objects store a"
    and w: "\<forall>key a. map_of (node_params node) key = Some a \<longrightarrow>
             param_objects store' a =
               (case map_of params key of
                  None \<Rightarrow> param_objects store a
                | Some v \<Rightarrow> (param_objects store a)\<lparr>param_value := v\<rparr>)"
    by blast
  have r': "updateNodeParams store b nodeId params = (None, store', b)"
    using stored r by (simp add: updateNodeParams_def)
  have n: "\<forall>other \<in> snd ` set (nodes b).
          snd ` set (node_params other) \<inter> snd ` set (node_params node) = {} \<longrightarrow>
          (\<forall>a \<in> snd ` set (node_params other). param_objects store' a = param_objects store a)"
    using o by blast
  from r' w o n b p show ?thesis by blast
qed

theorem updateNodeParams_writes_declared_witness:
  "map_of (nodes example_chain) ''effect-1'' = Some (createEffectNode ''effect-1'' ''Brightness'' 1)
   \<and> distinct (map snd (node_params (createEffectNode ''effect-1'' ''Brightness'' 1)))
   \<and> distinct (map fst [(''value'', PNum (1 / 2)), (''unknown'', PBool True)])
   \<and> get_param example_store (createEffectNode ''effect-1'' ''Brightness'' 1) ''unknown'' = None
   \<and> (\<exists>store'. updateNodeParams example_store example_chain ''effect-1''
                   [(''value'', PNum (1 / 2)), (''unknown'', PBool True)]
                 = (None, store', example_chain)
          \<and> param_objects store' 1 = effect_value_param\<lparr>param_value := PNum (1 / 2)\<rparr>
          \<and> param_objects store' 2 = effect_value_param
          \<and> builtin_value store' = builtin_value example_store
          \<and> prototype_value store' = None)"
proof -
  let ?node = "createEffectNode ''effect-1'' ''Brightness'' 1"
  let ?ps = "[(''value'', PNum (1 / 2)), (''unknown'', PBool True)]"
  have h1: "map_of (nodes example_chain) ''effect-1'' = Some ?node"
    by (simp add: example_chain_def)
  have h2: "distinct (map snd (node_params ?node))" by (simp add: createEffectNode_def)
  have h3: "distinct (map fst ?ps)" by simp
  have u: "get_param example_store ?node ''unknown'' = None"
    by (simp add: get_param_def createEffectNode_def object_prototype_functions_def)
  have h4: "\<forall>key \<in> fst ` set ?ps.
              key \<in> fst ` set (node_params ?node) \<or> get_param example_store ?node key = None"
    using u by (simp add: createEffectNode_def)
  from updateNodeParams_writes_declared[OF h1 h2 h3 h4] obtain store' where
    r: "updateNodeParams example_store example_chain ''effect-1'' ?ps
          = (None, store', example_chain)"
    and w: "\<forall>key a. map_of (node_params ?node) key = Some a \<longrightarrow>
          param_objects store' a =
            (case map_of ?ps key of
               None \<Rightarrow> param_objects example_store a
             | Some v \<Rightarrow> (param_objects example_store a)\<lparr>param_value := v\<rparr>)"
    and o: "\<forall>a. a \<notin> snd ` set (node_params ?node) \<longrightarrow>
              param_objects store' a = param_objects example_store a"
    and b: "builtin_value store' = builtin_value example_store"
    and p: "prototype_value store' = prototype_value example_store"
    by blast
  have "map_of (node_params ?node) ''value'' = Some 1" by (simp add: createEffectNode_def)
  with w have 1: "param_objects store' 1 = effect_value_param\<lparr>param_value := PNum (1 / 2)\<rparr>"
    by (auto simp: example_store_def)
  have "(2::nat) \<notin> snd ` set (node_params ?node)" by (simp add: createEffectNode_def)
  with o have 2: "param_objects store' 2 = effect_value_param"
    by (auto simp: example_store_def)
  from p have 3: "prototype_value store' = None" by (simp add: example_store_def)
  from h1 h2 h3 u r 1 2 b 3 show ?thesis by blast
qed

section \<open>The invariant of one connection per input\<close>

lemma distinct_map_count:
  "distinct (map f xs) \<longleftrightarrow> (\<forall>t. length (filter (\<lambda>x. f x = t) xs) \<le> 1)"
proof (induction xs)
  case Nil
  then show ?case by simp
next
  case (Cons x xs)
  have a: "f x \<notin> f ` set xs \<longleftrightarrow> length (filter (\<lambda>y. f y = f x) xs) = 0"
    by (simp add: filter_empty_conv image_iff) metis
  show ?case
  proof
    assume d: "distinct (map f (x # xs))"
    then have 1: "length (filter (\<lambda>y. f y = f x) xs) = 0" and 2: "\<forall>t. length (filter (\<lambda>x. f x = t) xs) \<le> 1"
      using a Cons.IH by auto
    show "\<forall>t. length (filter (\<lambda>x. f x = t) (x # xs)) \<le> 1"
    proof
      fix t
      show "length (filter (\<lambda>x. f x = t) (x # xs)) \<le> 1"
        using 1 2 by (cases "f x = t") auto
    qed
  next
    assume r: "\<forall>t. length (filter (\<lambda>x. f x = t) (x # xs)) \<le> 1"
    then have "length (filter (\<lambda>y. f y = f x) (x # xs)) \<le> 1" by blast
    then have 1: "length (filter (\<lambda>y. f y = f x) xs) = 0" by simp
    have 2: "\<forall>t. length (filter (\<lambda>x. f x = t) xs) \<le> 1"
    proof
      fix t
      from r have "length (filter (\<lambda>x. f x = t) (x # xs)) \<le> 1" by blast
      then show "length (filter (\<lambda>x. f x = t) xs) \<le> 1" by (cases "f x = t") auto
    qed
    show "distinct (map f (x # xs))" using 1 2 a Cons.IH by auto
  qed
qed

lemma single_input_count:
  "single_input_connections conns \<longleftrightarrow>
     (\<forall>n i. length (filter (\<lambda>c. to_nodeId c = n \<and> to_input c = i) conns) \<le> 1)"
  unfolding single_input_connections_def distinct_map_count
  by (simp add: input_target_def)

lemma single_input_filter:
  "single_input_connections conns \<Longrightarrow> single_input_connections (filter P conns)"
  unfolding single_input_connections_def by (rule distinct_map_filter)

lemma distinct_splice: "distinct xs \<Longrightarrow> distinct (take i xs @ drop (Suc i) xs)"
proof -
  assume d: "distinct xs"
  then have "distinct (take i xs @ drop i xs)" by simp
  then have dis: "set (take i xs) \<inter> set (drop i xs) = {}"
    by (simp only: distinct_append)
  have "set (drop (Suc i) xs) \<subseteq> set (drop i xs)"
    by (rule set_drop_subset_set_drop) simp
  with dis have "set (take i xs) \<inter> set (drop (Suc i) xs) = {}" by blast
  with d show ?thesis by simp
qed

lemma single_input_splice:
  assumes "single_input_connections conns"
  shows "single_input_connections (take i conns @ drop (Suc i) conns)"
proof -
  from assms have "distinct (map input_target conns)"
    by (simp add: single_input_connections_def)
  from distinct_splice[OF this, of i] show ?thesis
    by (simp add: single_input_connections_def take_map drop_map)
qed

lemma connect_success_connections:
  assumes inv: "single_input_connections (connections b)"
    and ok: "connect counter b f fo t ti = (Inr cid, counter', b')"
  shows "single_input_connections (connections b')
       \<and> filter (\<lambda>c. to_nodeId c = t \<and> to_input c = ti) (connections b')
           = [\<lparr>conn_id = cid, from_nodeId = f, from_output = fo, to_nodeId = t, to_input = ti\<rparr>]"
proof -
  define b1 where "b1 =
     (case find (\<lambda>c. to_nodeId c = t \<and> to_input c = ti) (connections b) of
        None \<Rightarrow> b
      | Some existingConn \<Rightarrow>
          b\<lparr>connections := filter (\<lambda>c. conn_id c \<noteq> conn_id existingConn) (connections b)\<rparr>)"
  define new where "new = \<lparr>conn_id = ''conn-'' @ string_of_nat (Suc counter),
       from_nodeId = f, from_output = fo, to_nodeId = t, to_input = ti\<rparr>"
  from ok have res: "cid = conn_id new" "connections b' = connections b1 @ [new]"
    by (auto simp: connect_def Let_def b1_def new_def split: option.splits if_splits)
  have inv1: "single_input_connections (connections b1)"
    using inv by (auto simp: b1_def single_input_filter split: option.splits)
  have none: "\<forall>c \<in> set (connections b1). \<not> (to_nodeId c = t \<and> to_input c = ti)"
  proof (cases "find (\<lambda>c. to_nodeId c = t \<and> to_input c = ti) (connections b)")
    case None
    then have "connections b1 = connections b" by (simp add: b1_def)
    with None show ?thesis by (simp add: find_None_iff)
  next
    case (Some e)
    then have e: "e \<in> set (connections b)" "input_target e = (t, ti)"
      by (auto simp: find_Some_iff input_target_def)
    have inj: "inj_on input_target (set (connections b))"
      using inv by (simp add: single_input_connections_def distinct_map)
    show ?thesis
    proof
      fix c assume c: "c \<in> set (connections b1)"
      then have cin: "c \<in> set (connections b)" and cid: "conn_id c \<noteq> conn_id e"
        using Some by (auto simp: b1_def)
      show "\<not> (to_nodeId c = t \<and> to_input c = ti)"
      proof
        assume "to_nodeId c = t \<and> to_input c = ti"
        then have "input_target c = input_target e" using e by (simp add: input_target_def)
        with inj cin e(1) have "c = e" by (auto dest: inj_onD)
        with cid show False by simp
      qed
    qed
  qed
  have tnew: "input_target new = (t, ti)" by (simp add: new_def input_target_def)
  have "input_target new \<notin> input_target ` set (connections b1)"
    using none tnew by (auto simp: input_target_def)
  then have A: "single_input_connections (connections b')"
    using inv1 res by (simp add: single_input_connections_def)
  have "filter (\<lambda>c. to_nodeId c = t \<and> to_input c = ti) (connections b1) = []"
    using none by (auto simp: filter_empty_conv)
  then have B: "filter (\<lambda>c. to_nodeId c = t \<and> to_input c = ti) (connections b') = [new]"
    using res by (simp add: new_def)
  from A B res show ?thesis by (simp add: new_def)
qed

text \<open>
  Claim C8.  If at most one connection targets each input, then the same holds after
  \<^verbatim>\<open>addNode\<close>, \<^verbatim>\<open>connect\<close>, \<^verbatim>\<open>disconnect\<close> and \<^verbatim>\<open>removeNode\<close>; and after a successful
  \<^verbatim>\<open>connect\<close> the connections that target the given input are exactly the new
  one, so a connection that occupied the input before is gone.
\<close>

theorem builder_operations_keep_single_input:
  assumes "single_input_connections (connections b)"
  shows "(\<forall>node b'. addNode b node = Inr b' \<longrightarrow> single_input_connections (connections b'))
    \<and> (\<forall>counter f fo t ti cid counter' b'.
          connect counter b f fo t ti = (Inr cid, counter', b') \<longrightarrow>
            single_input_connections (connections b')
            \<and> filter (\<lambda>c. to_nodeId c = t \<and> to_input c = ti) (connections b')
                = [\<lparr>conn_id = cid, from_nodeId = f, from_output = fo, to_nodeId = t, to_input = ti\<rparr>])
    \<and> (\<forall>connectionId. single_input_connections (connections (snd (disconnect b connectionId))))
    \<and> (\<forall>nodeId. single_input_connections (connections (snd (removeNode b nodeId))))"
proof (intro conjI allI impI)
  fix node b' assume "addNode b node = Inr b'"
  then show "single_input_connections (connections b')"
    using assms by (auto simp: addNode_def split: if_splits)
next
  fix counter f fo t ti cid counter' b'
  assume "connect counter b f fo t ti = (Inr cid, counter', b')"
  from connect_success_connections[OF assms this]
  show "single_input_connections (connections b')"
    and "filter (\<lambda>c. to_nodeId c = t \<and> to_input c = ti) (connections b')
                = [\<lparr>conn_id = cid, from_nodeId = f, from_output = fo, to_nodeId = t, to_input = ti\<rparr>]"
    by simp_all
next
  fix connectionId
  show "single_input_connections (connections (snd (disconnect b connectionId)))"
    using assms by (auto simp: disconnect_def single_input_splice split: option.splits)
next
  fix nodeId
  show "single_input_connections (connections (snd (removeNode b nodeId)))"
    using assms by (auto simp: removeNode_def single_input_filter)
qed

theorem builder_operations_keep_single_input_witness:
  "single_input_connections (connections example_chain)
   \<and> fst (connect 2 example_chain ''source-1'' ''output'' ''output-1'' ''input'') = Inr ''conn-3''
   \<and> filter (\<lambda>c. to_nodeId c = ''output-1'' \<and> to_input c = ''input'')
        (connections (snd (snd (connect 2 example_chain ''source-1'' ''output'' ''output-1'' ''input''))))
      = [\<lparr>conn_id = ''conn-3'', from_nodeId = ''source-1'', from_output = ''output'',
          to_nodeId = ''output-1'', to_input = ''input''\<rparr>]
   \<and> single_input_connections
        (connections (snd (snd (connect 2 example_chain ''source-1'' ''output'' ''output-1'' ''input''))))
   \<and> single_input_connections (connections (snd (removeNode example_chain ''effect-1'')))
   \<and> single_input_connections (connections (snd (disconnect example_chain ''conn-1'')))"
proof -
  have h: "single_input_connections (connections example_chain)"
    by (simp add: single_input_connections_def input_target_def example_chain_def)
  obtain b' where ev:
    "connect 2 example_chain ''source-1'' ''output'' ''output-1'' ''input'' = (Inr ''conn-3'', 3, b')"
    by (simp add: connect_def example_chain_def createSourceNode_def createOutputNode_def
          createEffectNode_def texture_input_def texture_output_def wouldCreateCycle_def
          canReach.simps Let_def string_of_nat.simps digit_char_def)
  from builder_operations_keep_single_input[OF h] ev
  have "single_input_connections (connections b')"
    and "filter (\<lambda>c. to_nodeId c = ''output-1'' \<and> to_input c = ''input'') (connections b')
      = [\<lparr>conn_id = ''conn-3'', from_nodeId = ''source-1'', from_output = ''output'',
          to_nodeId = ''output-1'', to_input = ''input''\<rparr>]"
    and "single_input_connections (connections (snd (removeNode example_chain ''effect-1'')))"
    and "single_input_connections (connections (snd (disconnect example_chain ''conn-1'')))"
    by blast+
  with h ev show ?thesis by simp
qed

section \<open>The node map\<close>

text \<open>
  The empty builder has a well-formed node map and every operation keeps it so; and
  removing a stored node leaves no connection that names it.
\<close>

lemma nodes_wf_new: "nodes_wf (new_builder g)"
  by (simp add: nodes_wf_def new_builder_def)

lemma nodes_wf_addNode: "nodes_wf b \<Longrightarrow> addNode b node = Inr b' \<Longrightarrow> nodes_wf b'"
  by (auto simp: nodes_wf_def addNode_def map_of_eq_None_iff split: if_splits)

lemma nodes_wf_removeNode: "nodes_wf b \<Longrightarrow> nodes_wf (snd (removeNode b nodeId))"
  by (auto simp: nodes_wf_def removeNode_def distinct_map_filter list_all_iff)

lemma nodes_wf_connect:
  "nodes_wf b \<Longrightarrow> nodes_wf (snd (snd (connect counter b f fo t ti)))"
  by (auto simp: nodes_wf_def connect_def Let_def split: option.splits)

lemma nodes_wf_disconnect: "nodes_wf b \<Longrightarrow> nodes_wf (snd (disconnect b connectionId))"
  by (auto simp: nodes_wf_def disconnect_def split: option.splits)

lemma removeNode_connections:
  "map_of (nodes b) nodeId \<noteq> None \<Longrightarrow>
   \<forall>c \<in> set (getConnections (snd (removeNode b nodeId))).
     from_nodeId c \<noteq> nodeId \<and> to_nodeId c \<noteq> nodeId"
  by (auto simp: removeNode_def getConnections_def)

section \<open>Topological order\<close>

lemma precedes_append: "precedes xs x y \<Longrightarrow> precedes (xs @ ws) x y"
  unfolding precedes_def by (metis append.assoc append_Cons)

lemma precedes_snoc: "x \<in> set xs \<Longrightarrow> precedes (xs @ [y]) x y"
  unfolding precedes_def by blast

lemma precedes_index:
  "precedes xs x y \<Longrightarrow> \<exists>i j. i < j \<and> j < length xs \<and> xs ! i = x \<and> xs ! j = y"
proof -
  assume "precedes xs x y"
  then obtain ys zs where xs: "xs = ys @ y # zs" and x: "x \<in> set ys"
    unfolding precedes_def by blast
  from x obtain i where i: "i < length ys" "ys ! i = x" by (auto simp: in_set_conv_nth)
  have "xs ! i = x" using xs i by (simp add: nth_append)
  moreover have "xs ! length ys = y" using xs by simp
  moreover have "length ys < length xs" using xs by simp
  ultimately show ?thesis using i(1) by blast
qed

lemma nodes_wf_id:
  "nodes_wf b \<Longrightarrow> map_of (nodes b) k = Some node \<Longrightarrow> node_id node = k"
  by (auto simp: nodes_wf_def list_all_iff dest!: map_of_SomeD)

lemma sort_inv_result_ids:
  assumes "nodes_wf b" "sort_inv b st"
  shows "node_id ` set (result st) = visited st \<inter> fst ` set (nodes b)"
proof -
  have s: "set (result st) = {node. \<exists>k \<in> visited st. map_of (nodes b) k = Some node}"
    using assms(2) by (simp add: sort_inv_def)
  show ?thesis
  proof (intro set_eqI iffI)
    fix k assume "k \<in> node_id ` set (result st)"
    then obtain node k' where "k = node_id node" "k' \<in> visited st" "map_of (nodes b) k' = Some node"
      using s by auto
    moreover from this have "node_id node = k'" using nodes_wf_id[OF assms(1)] by simp
    ultimately show "k \<in> visited st \<inter> fst ` set (nodes b)"
      by (force dest: map_of_SomeD)
  next
    fix k assume k: "k \<in> visited st \<inter> fst ` set (nodes b)"
    then obtain node where n: "map_of (nodes b) k = Some node"
      by (metis IntD2 domD dom_map_of_conv_image_fst)
    then have "node \<in> set (result st)" using s k by auto
    moreover have "node_id node = k" using nodes_wf_id[OF assms(1) n] .
    ultimately show "k \<in> node_id ` set (result st)" by force
  qed
qed


lemma visit_step_inv:
  assumes wf: "nodes_wf b"
    and inv1: "sort_inv b st1"
    and vis: "n \<in> visiting st1"
    and preds: "from_nodeId ` set (getInputConnections b n) \<subseteq> visited st1"
  defines "st2 \<equiv> st1\<lparr>visiting := visiting st1 - {n}, visited := insert n (visited st1)\<rparr>"
  defines "st3 \<equiv> (case map_of (nodes b) n of
                     None \<Rightarrow> st2
                   | Some node \<Rightarrow> st2\<lparr>result := result st2 @ [node]\<rparr>)"
  shows "sort_inv b st3"
proof -
  have nv: "n \<notin> visited st1" using inv1 vis by (auto simp: sort_inv_def)
  have ids1: "node_id ` set (result st1) = visited st1 \<inter> fst ` set (nodes b)"
    using sort_inv_result_ids[OF wf inv1] .
  have v3: "visited st3 = insert n (visited st1)" "visiting st3 = visiting st1 - {n}"
    by (auto simp: st3_def st2_def split: option.splits)
  have r3: "result st3 = (case map_of (nodes b) n of None \<Rightarrow> result st1
                          | Some node \<Rightarrow> result st1 @ [node])"
    by (auto simp: st3_def st2_def split: option.splits)
  have c1: "visited st3 \<inter> visiting st3 = {}"
    using inv1 unfolding v3 by (auto simp: sort_inv_def)
  have c2: "\<forall>c \<in> set (connections b). to_nodeId c \<in> visited st3 \<longrightarrow> from_nodeId c \<in> visited st3"
  proof (intro ballI impI)
    fix c assume c: "c \<in> set (connections b)" and t: "to_nodeId c \<in> visited st3"
    show "from_nodeId c \<in> visited st3"
    proof (cases "to_nodeId c = n")
      case True
      then have "c \<in> set (getInputConnections b n)" using c by (simp add: getInputConnections_def)
      then show ?thesis using preds v3 by auto
    next
      case False
      then have "to_nodeId c \<in> visited st1" using t v3 by simp
      then show ?thesis using inv1 c v3 by (auto simp: sort_inv_def)
    qed
  qed
  have c3: "distinct (map node_id (result st3))"
  proof (cases "map_of (nodes b) n")
    case None
    then show ?thesis using inv1 r3 by (simp add: sort_inv_def)
  next
    case (Some node)
    then have "node_id node = n" using nodes_wf_id[OF wf] by simp
    moreover have "n \<notin> node_id ` set (result st1)" using ids1 nv by simp
    ultimately show ?thesis using inv1 r3 Some by (simp add: sort_inv_def)
  qed
  have s1: "set (result st1) = {node. \<exists>k \<in> visited st1. map_of (nodes b) k = Some node}"
    using inv1 by (simp add: sort_inv_def)
  have c4: "set (result st3) = {node. \<exists>k \<in> visited st3. map_of (nodes b) k = Some node}"
  proof (cases "map_of (nodes b) n")
    case None
    then show ?thesis using s1 by (auto simp: v3 r3)
  next
    case (Some node)
    then show ?thesis using s1 by (auto simp: v3 r3)
  qed
  have c5: "\<forall>c \<in> set (connections b).
           to_nodeId c \<in> node_id ` set (result st3) \<and> from_nodeId c \<in> fst ` set (nodes b) \<longrightarrow>
           precedes (map node_id (result st3)) (from_nodeId c) (to_nodeId c)"
  proof (intro ballI impI)
    fix c assume c: "c \<in> set (connections b)"
      and h: "to_nodeId c \<in> node_id ` set (result st3) \<and> from_nodeId c \<in> fst ` set (nodes b)"
    show "precedes (map node_id (result st3)) (from_nodeId c) (to_nodeId c)"
    proof (cases "to_nodeId c \<in> node_id ` set (result st1)")
      case True
      then have p: "precedes (map node_id (result st1)) (from_nodeId c) (to_nodeId c)"
        using inv1 c h by (auto simp: sort_inv_def)
      show ?thesis
      proof (cases "map_of (nodes b) n")
        case None
        then show ?thesis using p r3 by simp
      next
        case (Some node)
        then show ?thesis using precedes_append[OF p, of "[node_id node]"] r3 by simp
      qed
    next
      case False
      with h obtain node where some: "map_of (nodes b) n = Some node"
        and t: "to_nodeId c = node_id node"
        using r3 by (cases "map_of (nodes b) n") auto
      have idn: "node_id node = n" using nodes_wf_id[OF wf some] .
      then have "c \<in> set (getInputConnections b n)"
        using c t by (simp add: getInputConnections_def)
      then have "from_nodeId c \<in> visited st1" using preds by auto
      then have "from_nodeId c \<in> set (map node_id (result st1))" using ids1 h by simp
      from precedes_snoc[OF this, of "node_id node"] show ?thesis
        using r3 some t by simp
    qed
  qed
  show ?thesis unfolding sort_inv_def using c1 c2 c3 c4 c5 by blast
qed


lemma sort_inv_enter:
  "sort_inv b st \<Longrightarrow> n \<notin> visited st \<Longrightarrow> sort_inv b (st\<lparr>visiting := insert n (visiting st)\<rparr>)"
  by (auto simp: sort_inv_def)

lemma visit_correct:
  "nodes_wf b \<Longrightarrow> acyclic (edges b) \<Longrightarrow> sort_inv b st \<Longrightarrow>
     \<forall>v \<in> visiting st. (v, n) \<notin> (edges b)\<^sup>* \<Longrightarrow>
     \<exists>st'. visit b n st = Inr st' \<and> sort_inv b st' \<and> visiting st' = visiting st
          \<and> visited st \<subseteq> visited st' \<and> n \<in> visited st'"
  "nodes_wf b \<Longrightarrow> acyclic (edges b) \<Longrightarrow> sort_inv b st \<Longrightarrow>
     \<forall>c \<in> set cs. \<forall>v \<in> visiting st. (v, from_nodeId c) \<notin> (edges b)\<^sup>* \<Longrightarrow>
     \<exists>st'. visit_inputs b cs st = Inr st' \<and> sort_inv b st' \<and> visiting st' = visiting st
          \<and> visited st \<subseteq> visited st' \<and> from_nodeId ` set cs \<subseteq> visited st'"
proof (induction b n st and b cs st rule: visit_visit_inputs.induct)
  case (1 b nodeId st)
  note wf = "1.prems"(1) and ac = "1.prems"(2) and inv = "1.prems"(3) and free = "1.prems"(4)
  show ?case
  proof (cases "nodeId \<in> visited st")
    case True
    then show ?thesis using inv by (simp add: visit.simps)
  next
    case False
    have nvis: "nodeId \<notin> visiting st" using free by auto
    let ?st0 = "st\<lparr>visiting := insert nodeId (visiting st)\<rparr>"
    have inv0: "sort_inv b ?st0" using sort_inv_enter[OF inv False] .
    have free0: "\<forall>c \<in> set (getInputConnections b nodeId).
                   \<forall>v \<in> visiting ?st0. (v, from_nodeId c) \<notin> (edges b)\<^sup>*"
    proof (intro ballI notI)
      fix c v assume c: "c \<in> set (getInputConnections b nodeId)" and v: "v \<in> visiting ?st0"
        and r: "(v, from_nodeId c) \<in> (edges b)\<^sup>*"
      from c have e: "(from_nodeId c, nodeId) \<in> edges b"
        by (auto simp: getInputConnections_def edges_def)
      show False
      proof (cases "v = nodeId")
        case True
        with r e have "(nodeId, nodeId) \<in> (edges b)\<^sup>+" by (metis rtrancl_into_trancl1)
        with ac show False by (simp add: acyclic_def)
      next
        case False
        with v have "v \<in> visiting st" by simp
        moreover from r e have "(v, nodeId) \<in> (edges b)\<^sup>*" by (metis rtrancl.rtrancl_into_rtrancl)
        ultimately show False using free by blast
      qed
    qed
    from "1.IH"[OF False nvis wf ac inv0 free0] obtain st1 where
      s1: "visit_inputs b (getInputConnections b nodeId) ?st0 = Inr st1"
      and inv1: "sort_inv b st1"
      and vg1: "visiting st1 = insert nodeId (visiting st)"
      and vd1: "visited st \<subseteq> visited st1"
      and pr1: "from_nodeId ` set (getInputConnections b nodeId) \<subseteq> visited st1"
      by auto
    let ?st2 = "st1\<lparr>visiting := visiting st1 - {nodeId}, visited := insert nodeId (visited st1)\<rparr>"
    let ?st3 = "(case map_of (nodes b) nodeId of
                     None \<Rightarrow> ?st2
                   | Some node \<Rightarrow> ?st2\<lparr>result := result ?st2 @ [node]\<rparr>)"
    have res: "visit b nodeId st = Inr ?st3"
      using False nvis s1 by (simp add: visit.simps Let_def)
    have inv3: "sort_inv b ?st3"
      using visit_step_inv[OF wf inv1 _ pr1] vg1 by simp
    have v3: "visited ?st3 = insert nodeId (visited st1)" "visiting ?st3 = visiting st1 - {nodeId}"
      by (auto split: option.splits)
    have "visiting ?st3 = visiting st" using v3 vg1 nvis by auto
    moreover have "visited st \<subseteq> visited ?st3" using v3 vd1 by auto
    moreover have "nodeId \<in> visited ?st3" using v3 by simp
    ultimately show ?thesis using res inv3 by blast
  qed
next
  case (2 b st)
  then show ?case by simp
next
  case (3 b conn conns st)
  note wf = "3.prems"(1) and ac = "3.prems"(2) and inv = "3.prems"(3) and free = "3.prems"(4)
  have "\<forall>v \<in> visiting st. (v, from_nodeId conn) \<notin> (edges b)\<^sup>*" using free by simp
  from "3.IH"(1)[OF wf ac inv this] obtain st1 where
    s1: "visit b (from_nodeId conn) st = Inr st1"
    and inv1: "sort_inv b st1"
    and vg1: "visiting st1 = visiting st"
    and vd1: "visited st \<subseteq> visited st1"
    and in1: "from_nodeId conn \<in> visited st1"
    by auto
  have "\<forall>c \<in> set conns. \<forall>v \<in> visiting st1. (v, from_nodeId c) \<notin> (edges b)\<^sup>*"
    using free vg1 by simp
  from "3.IH"(2)[OF s1 wf ac inv1 this] obtain st2 where
    s2: "visit_inputs b conns st1 = Inr st2"
    and inv2: "sort_inv b st2"
    and vg2: "visiting st2 = visiting st1"
    and vd2: "visited st1 \<subseteq> visited st2"
    and in2: "from_nodeId ` set conns \<subseteq> visited st2"
    by auto
  have "visit_inputs b (conn # conns) st = Inr st2" using s1 s2 by simp
  moreover have "from_nodeId ` set (conn # conns) \<subseteq> visited st2" using in1 in2 vd2 by auto
  ultimately show ?case using inv2 vg1 vg2 vd1 vd2 by auto
qed

lemma visit_keys_correct:
  "nodes_wf b \<Longrightarrow> acyclic (edges b) \<Longrightarrow> sort_inv b st \<Longrightarrow> visiting st = {} \<Longrightarrow>
     \<exists>st'. visit_keys b ks st = Inr st' \<and> sort_inv b st' \<and> visiting st' = {}
          \<and> visited st \<union> set ks \<subseteq> visited st'"
proof (induction ks arbitrary: st)
  case Nil
  then show ?case by simp
next
  case (Cons k ks)
  have "\<forall>v \<in> visiting st. (v, k) \<notin> (edges b)\<^sup>*" using Cons.prems(4) by simp
  from visit_correct(1)[OF Cons.prems(1,2,3) this] obtain st1 where
    s1: "visit b k st = Inr st1" and inv1: "sort_inv b st1"
    and vg1: "visiting st1 = visiting st" and vd1: "visited st \<subseteq> visited st1"
    and in1: "k \<in> visited st1"
    by auto
  from Cons.IH[OF Cons.prems(1,2) inv1] vg1 Cons.prems(4) obtain st2 where
    s2: "visit_keys b ks st1 = Inr st2" and inv2: "sort_inv b st2"
    and vg2: "visiting st2 = {}" and vd2: "visited st1 \<union> set ks \<subseteq> visited st2"
    by auto
  have "visit_keys b (k # ks) st = Inr st2" using s1 s2 by simp
  then show ?case using inv2 vg2 vd1 vd2 in1 by auto
qed

lemma sort_inv_init: "sort_inv b \<lparr>result = [], visited = {}, visiting = {}\<rparr>"
  by (simp add: sort_inv_def)

lemma sorted_acyclic:
  assumes wf: "nodes_wf b" and ac: "acyclic (edges b)"
  shows "\<exists>sorted. getTopologicallySorted b = Inr sorted
      \<and> distinct (map node_id sorted)
      \<and> set sorted = snd ` set (nodes b)
      \<and> (\<forall>c \<in> set (connections b).
            from_nodeId c \<in> fst ` set (nodes b) \<and> to_nodeId c \<in> fst ` set (nodes b) \<longrightarrow>
            precedes (map node_id sorted) (from_nodeId c) (to_nodeId c))"
proof -
  from visit_keys_correct[OF wf ac sort_inv_init, of "map fst (nodes b)"] obtain st where
    s: "visit_keys b (map fst (nodes b)) \<lparr>result = [], visited = {}, visiting = {}\<rparr> = Inr st"
    and inv: "sort_inv b st" and all: "fst ` set (nodes b) \<subseteq> visited st"
    by auto
  have r: "getTopologicallySorted b = Inr (result st)"
    using s by (simp add: getTopologicallySorted_def)
  have d: "distinct (map node_id (result st))" using inv by (simp add: sort_inv_def)
  have ids: "node_id ` set (result st) = fst ` set (nodes b)"
    using sort_inv_result_ids[OF wf inv] all by auto
  have "set (result st) = {node. \<exists>k \<in> visited st. map_of (nodes b) k = Some node}"
    using inv by (simp add: sort_inv_def)
  also have "\<dots> = snd ` set (nodes b)"
  proof (intro set_eqI iffI)
    fix node assume "node \<in> {node. \<exists>k \<in> visited st. map_of (nodes b) k = Some node}"
    then show "node \<in> snd ` set (nodes b)" by (force dest: map_of_SomeD)
  next
    fix node assume "node \<in> snd ` set (nodes b)"
    then obtain k where kn: "(k, node) \<in> set (nodes b)" by auto
    then have "map_of (nodes b) k = Some node"
      using wf by (simp add: nodes_wf_def)
    moreover have "k \<in> visited st" using kn all by force
    ultimately show "node \<in> {node. \<exists>k \<in> visited st. map_of (nodes b) k = Some node}" by blast
  qed
  finally have m: "set (result st) = snd ` set (nodes b)" .
  have o: "\<forall>c \<in> set (connections b).
            from_nodeId c \<in> fst ` set (nodes b) \<and> to_nodeId c \<in> fst ` set (nodes b) \<longrightarrow>
            precedes (map node_id (result st)) (from_nodeId c) (to_nodeId c)"
    using inv ids by (auto simp: sort_inv_def)
  from r d m o show ?thesis by blast
qed


lemma acyclic_ranked:
  fixes rank :: "'a \<Rightarrow> nat"
  assumes "\<And>x y. (x, y) \<in> r \<Longrightarrow> rank x < rank y"
  shows "acyclic r"
proof -
  have "(x, y) \<in> r\<^sup>+ \<Longrightarrow> rank x < rank y" for x y
    by (induction rule: trancl.induct) (auto dest: assms intro: less_trans)
  then show ?thesis unfolding acyclic_def by (metis less_irrefl)
qed

text \<open>
  Claim C1.  For a builder whose connection set is acyclic (its node map being a map
  from ids to the nodes of these ids), \<^verbatim>\<open>getTopologicallySorted\<close> returns, without
  throwing, a list that holds exactly the stored nodes, each once; and for every
  connection between two stored nodes the producer stands at a smaller index than the
  consumer.
\<close>

theorem getTopologicallySorted_acyclic:
  assumes "nodes_wf b" and "acyclic (edges b)"
  shows "\<exists>sorted. getTopologicallySorted b = Inr sorted
      \<and> distinct (map node_id sorted)
      \<and> set sorted = snd ` set (nodes b)
      \<and> length sorted = length (nodes b)
      \<and> (\<forall>c \<in> set (connections b).
            from_nodeId c \<in> fst ` set (nodes b) \<and> to_nodeId c \<in> fst ` set (nodes b) \<longrightarrow>
            (\<exists>i j. i < j \<and> j < length sorted
                 \<and> node_id (sorted ! i) = from_nodeId c \<and> node_id (sorted ! j) = to_nodeId c))"
proof -
  from sorted_acyclic[OF assms] obtain sorted where
    r: "getTopologicallySorted b = Inr sorted"
    and d: "distinct (map node_id sorted)"
    and m: "set sorted = snd ` set (nodes b)"
    and o: "\<forall>c \<in> set (connections b).
            from_nodeId c \<in> fst ` set (nodes b) \<and> to_nodeId c \<in> fst ` set (nodes b) \<longrightarrow>
            precedes (map node_id sorted) (from_nodeId c) (to_nodeId c)"
    by blast
  have ids: "node_id ` set sorted = fst ` set (nodes b)"
  proof -
    have "node_id (snd kv) = fst kv" if "kv \<in> set (nodes b)" for kv
      using that assms(1) by (auto simp: nodes_wf_def list_all_iff)
    then show ?thesis unfolding m by (force simp: image_iff)
  qed
  have "length sorted = card (node_id ` set sorted)"
    using d by (metis distinct_card length_map set_map)
  also have "\<dots> = card (fst ` set (nodes b))" by (simp add: ids)
  also have "\<dots> = length (nodes b)"
    using assms(1) by (metis distinct_card length_map set_map nodes_wf_def)
  finally have l: "length sorted = length (nodes b)" .
  have o': "\<forall>c \<in> set (connections b).
            from_nodeId c \<in> fst ` set (nodes b) \<and> to_nodeId c \<in> fst ` set (nodes b) \<longrightarrow>
            (\<exists>i j. i < j \<and> j < length sorted
                 \<and> node_id (sorted ! i) = from_nodeId c \<and> node_id (sorted ! j) = to_nodeId c)"
  proof (intro ballI impI)
    fix c assume "c \<in> set (connections b)"
      and "from_nodeId c \<in> fst ` set (nodes b) \<and> to_nodeId c \<in> fst ` set (nodes b)"
    with o have "precedes (map node_id sorted) (from_nodeId c) (to_nodeId c)" by blast
    from precedes_index[OF this] obtain i j where
      "i < j" "j < length sorted" "map node_id sorted ! i = from_nodeId c"
      "map node_id sorted ! j = to_nodeId c"
      by auto
    then show "\<exists>i j. i < j \<and> j < length sorted
                 \<and> node_id (sorted ! i) = from_nodeId c \<and> node_id (sorted ! j) = to_nodeId c"
      by (intro exI[of _ i] exI[of _ j]) simp
  qed
  from r d m l o' show ?thesis by blast
qed

theorem getTopologicallySorted_acyclic_witness:
  "nodes_wf example_chain \<and> acyclic (edges example_chain)
   \<and> (\<exists>sorted. getTopologicallySorted example_chain = Inr sorted
        \<and> set sorted = snd ` set (nodes example_chain)
        \<and> length sorted = 3
        \<and> (\<exists>i j. i < j \<and> j < length sorted
              \<and> node_id (sorted ! i) = ''effect-1'' \<and> node_id (sorted ! j) = ''output-1''))"
proof -
  have wf: "nodes_wf example_chain"
    by (simp add: nodes_wf_def example_chain_def createSourceNode_def createEffectNode_def
          createOutputNode_def)
  have e: "edges example_chain = {(''source-1'', ''effect-1''), (''effect-1'', ''output-1'')}"
    by (simp add: edges_def example_chain_def)
  have ac: "acyclic (edges example_chain)"
    unfolding e
    by (rule acyclic_ranked[where rank = "\<lambda>k. if k = ''source-1'' then 0
                                          else if k = ''effect-1'' then 1 else (2::nat)"])
       auto
  from getTopologicallySorted_acyclic[OF wf ac] obtain sorted where
    r: "getTopologicallySorted example_chain = Inr sorted"
    and m: "set sorted = snd ` set (nodes example_chain)"
    and l: "length sorted = length (nodes example_chain)"
    and o: "\<forall>c \<in> set (connections example_chain).
            from_nodeId c \<in> fst ` set (nodes example_chain)
            \<and> to_nodeId c \<in> fst ` set (nodes example_chain) \<longrightarrow>
            (\<exists>i j. i < j \<and> j < length sorted
                 \<and> node_id (sorted ! i) = from_nodeId c \<and> node_id (sorted ! j) = to_nodeId c)"
    by blast
  have l3: "length sorted = 3" using l by (simp add: example_chain_def)
  let ?c = "\<lparr>conn_id = ''conn-2'', from_nodeId = ''effect-1'', from_output = ''output'',
          to_nodeId = ''output-1'', to_input = ''input''\<rparr>"
  have "?c \<in> set (connections example_chain)" by (simp add: example_chain_def)
  moreover have "from_nodeId ?c \<in> fst ` set (nodes example_chain)
            \<and> to_nodeId ?c \<in> fst ` set (nodes example_chain)"
    by (simp add: example_chain_def)
  ultimately have "\<exists>i j. i < j \<and> j < length sorted
        \<and> node_id (sorted ! i) = from_nodeId ?c \<and> node_id (sorted ! j) = to_nodeId ?c"
    using o by blast
  then have "\<exists>i j. i < j \<and> j < length sorted
        \<and> node_id (sorted ! i) = ''effect-1'' \<and> node_id (sorted ! j) = ''output-1''"
    by simp
  with wf ac r m l3 show ?thesis by blast
qed


text \<open>
  The check in \<^verbatim>\<open>visit\<close> is what stops a cyclic connection list: two effect nodes that
  feed each other, as a serialized graph can hold them, make the sort throw.
\<close>

lemma getTopologicallySorted_cycle_example:
  "getTopologicallySorted
     \<lparr>nodes = [(''effect-1'', createEffectNode ''effect-1'' ''Brightness'' 1),
               (''effect-2'', createEffectNode ''effect-2'' ''Contrast'' 2)],
      connections =
        [\<lparr>conn_id = ''conn-1'', from_nodeId = ''effect-1'', from_output = ''output'',
          to_nodeId = ''effect-2'', to_input = ''input''\<rparr>,
         \<lparr>conn_id = ''conn-2'', from_nodeId = ''effect-2'', from_output = ''output'',
          to_nodeId = ''effect-1'', to_input = ''input''\<rparr>],
      graphId = ''graph-1''\<rparr>
   = Inl CycleDetected"
  by (simp add: getTopologicallySorted_def visit.simps getInputConnections_def)

lemma getTopologicallySorted_chain_example:
  "getTopologicallySorted example_chain =
     Inr [createSourceNode ''source-1'', createEffectNode ''effect-1'' ''Brightness'' 1,
          createOutputNode ''output-1'']"
  by (simp add: getTopologicallySorted_def visit.simps getInputConnections_def example_chain_def
        Let_def)

section \<open>Loading a serialized graph\<close>

lemma add_nodes_fresh:
  "distinct (map node_id ns) \<Longrightarrow> set (map node_id ns) \<inter> fst ` set (nodes b) = {} \<Longrightarrow>
   add_nodes b ns = Inr (b\<lparr>nodes := nodes b @ map (\<lambda>node. (node_id node, node)) ns\<rparr>)"
proof (induction ns arbitrary: b)
  case Nil
  then show ?case by simp
next
  case (Cons node ns)
  have fresh: "map_of (nodes b) (node_id node) = None"
    using Cons.prems(2) by (simp add: map_of_eq_None_iff)
  let ?b1 = "b\<lparr>nodes := nodes b @ [(node_id node, node)]\<rparr>"
  have a: "addNode b node = Inr ?b1" using fresh by (simp add: addNode_def)
  have "set (map node_id ns) \<inter> fst ` set (nodes ?b1) = {}"
    using Cons.prems by auto
  from Cons.IH[OF _ this] Cons.prems(1) a show ?case by simp
qed

lemma push_connections_append:
  "push_connections b conns = b\<lparr>connections := connections b @ conns\<rparr>"
  by (induction conns arbitrary: b) simp_all

lemma fromJSON_distinct:
  assumes "distinct (map node_id (json_nodes data))"
  shows "fromJSON data =
           Inr \<lparr>nodes = map (\<lambda>node. (node_id node, node)) (json_nodes data),
                connections = json_connections data, graphId = json_id data\<rparr>"
  using add_nodes_fresh[OF assms, of "new_builder (json_id data)"]
  by (simp add: fromJSON_def push_connections_append new_builder_def)

lemma nodes_wf_by_id:
  "distinct (map node_id ns) \<Longrightarrow>
   nodes_wf \<lparr>nodes = map (\<lambda>node. (node_id node, node)) ns, connections = conns, graphId = g\<rparr>"
  by (simp add: nodes_wf_def comp_def list_all_iff)

text \<open>
  Claim C7 fails on the code: the serialized graph \<open>dangling_json\<close> names the node ids
  \<^verbatim>\<open>ghost-in\<close> and \<^verbatim>\<open>ghost-out\<close>, which are not among its nodes; \<^verbatim>\<open>fromJSON\<close> returns
  a builder that keeps both connections, and \<^verbatim>\<open>getTopologicallySorted\<close> on that builder
  returns its one node without an error.
\<close>

theorem fromJSON_dangling_counterexample:
  "''ghost-in'' \<in> from_nodeId ` set (json_connections dangling_json)
   \<and> ''ghost-out'' \<in> to_nodeId ` set (json_connections dangling_json)
   \<and> ''ghost-in'' \<notin> node_id ` set (json_nodes dangling_json)
   \<and> ''ghost-out'' \<notin> node_id ` set (json_nodes dangling_json)
   \<and> fromJSON dangling_json = Inr dangling_builder
   \<and> getConnections dangling_builder = json_connections dangling_json
   \<and> getTopologicallySorted dangling_builder = Inr [createEffectNode ''effect-1'' ''Brightness'' 1]"
  by (simp add: dangling_json_def dangling_builder_def fromJSON_def new_builder_def addNode_def
        getConnections_def getTopologicallySorted_def visit.simps getInputConnections_def
        createEffectNode_def Let_def)

text \<open>
  Claim C7 as amended.  For a serialized graph whose node ids are distinct, whatever
  its connections name, \<^verbatim>\<open>fromJSON\<close> raises no error and returns a builder that holds
  the given nodes and the given connection list unchanged; and when the connection set
  is acyclic, \<^verbatim>\<open>getTopologicallySorted\<close> on that builder raises no error and returns
  exactly the given nodes, each once: an endpoint that names no node is skipped.
\<close>

theorem fromJSON_keeps_connections:
  assumes "distinct (map node_id (json_nodes data))"
  shows "\<exists>b. fromJSON data = Inr b
      \<and> getNodes b = json_nodes data
      \<and> getConnections b = json_connections data
      \<and> (acyclic (edges b) \<longrightarrow>
           (\<exists>sorted. getTopologicallySorted b = Inr sorted
              \<and> distinct sorted \<and> set sorted = set (json_nodes data)))"
proof -
  let ?b = "\<lparr>nodes = map (\<lambda>node. (node_id node, node)) (json_nodes data),
             connections = json_connections data, graphId = json_id data\<rparr>"
  have r: "fromJSON data = Inr ?b" using fromJSON_distinct[OF assms] .
  have wf: "nodes_wf ?b" using nodes_wf_by_id[OF assms] .
  have n: "getNodes ?b = json_nodes data" by (simp add: getNodes_def comp_def)
  have c: "getConnections ?b = json_connections data" by (simp add: getConnections_def)
  have s: "\<exists>sorted. getTopologicallySorted ?b = Inr sorted
              \<and> distinct sorted \<and> set sorted = set (json_nodes data)"
    if ac: "acyclic (edges ?b)"
  proof -
    from sorted_acyclic[OF wf ac] obtain sorted where
      "getTopologicallySorted ?b = Inr sorted" "distinct (map node_id sorted)"
      "set sorted = snd ` set (nodes ?b)"
      by blast
    moreover have "snd ` set (nodes ?b) = set (json_nodes data)" by (force simp: image_iff)
    ultimately show ?thesis by (auto simp: distinct_map)
  qed
  from r n c s show ?thesis by blast
qed

theorem fromJSON_keeps_connections_witness:
  "distinct (map node_id (json_nodes dangling_json))
   \<and> (\<exists>b. fromJSON dangling_json = Inr b
         \<and> getConnections b = json_connections dangling_json
         \<and> (\<exists>sorted. getTopologicallySorted b = Inr sorted
               \<and> set sorted = set (json_nodes dangling_json)))"
proof -
  have d: "distinct (map node_id (json_nodes dangling_json))"
    by (simp add: dangling_json_def)
  from fromJSON_keeps_connections[OF d] obtain b where
    r: "fromJSON dangling_json = Inr b"
    and c: "getConnections b = json_connections dangling_json"
    and s: "acyclic (edges b) \<longrightarrow>
           (\<exists>sorted. getTopologicallySorted b = Inr sorted
              \<and> distinct sorted \<and> set sorted = set (json_nodes dangling_json))"
    by blast
  have "edges b = {(''ghost-in'', ''effect-1''), (''effect-1'', ''ghost-out'')}"
    using c by (simp add: edges_def getConnections_def dangling_json_def)
  then have "acyclic (edges b)"
    by (simp only:)
       (rule acyclic_ranked[where rank = "\<lambda>k. if k = ''ghost-in'' then 0
                                          else if k = ''effect-1'' then 1 else (2::nat)"],
        auto)
  with s r c d show ?thesis by blast
qed

section \<open>Cycle rejection\<close>

text \<open>
  \<^verbatim>\<open>canReach\<close> decides reachability along the connections: started with an empty
  \<^verbatim>\<open>visited\<close> set it returns true exactly when the target can be reached from the start.
\<close>

lemma edges_edge_rel: "edges b = edge_rel (connections b)"
  by (simp add: edges_def edge_rel_def)

lemma canReach_sound:
  "\<And>v'. canReach conns start target seen = (True, v') \<Longrightarrow> (start, target) \<in> (edge_rel conns)\<^sup>*"
  "\<And>v'. canReach_outgoing conns out target seen = (True, v') \<Longrightarrow>
     \<exists>c \<in> set out. (to_nodeId c, target) \<in> (edge_rel conns)\<^sup>*"
proof (induction conns start target seen and conns out target seen
       rule: canReach_canReach_outgoing.induct)
  case (1 conns start target seen)
  show ?case
  proof (cases "start = target")
    case True
    then show ?thesis by simp
  next
    case False
    with "1.prems" have nv: "start \<notin> seen"
      and r: "canReach_outgoing conns (filter (\<lambda>c. from_nodeId c = start) conns) target
                (insert start seen) = (True, v')"
      by (auto simp: canReach.simps split: if_splits)
    from "1.IH"[OF False nv r] obtain c where
      c: "c \<in> set conns" "from_nodeId c = start" "(to_nodeId c, target) \<in> (edge_rel conns)\<^sup>*"
      by auto
    then have "(start, to_nodeId c) \<in> edge_rel conns" by (force simp: edge_rel_def)
    from this c(3) show ?thesis by (rule converse_rtrancl_into_rtrancl)
  qed
next
  case (2 conns target seen)
  then show ?case by simp
next
  case (3 conns conn rest target seen)
  obtain found seen1 where
    s1: "canReach conns (to_nodeId conn) target seen = (found, seen1)"
    by (cases "canReach conns (to_nodeId conn) target seen")
  show ?case
  proof (cases found)
    case True
    with "3.IH"(1) s1 show ?thesis by auto
  next
    case False
    with "3.prems" s1 have "canReach_outgoing conns rest target seen1 = (True, v')" by simp
    from "3.IH"(2)[OF s1[symmetric] False this] show ?thesis by auto
  qed
qed

lemma canReach_closed:
  "\<And>v'. canReach conns start target seen = (False, v') \<Longrightarrow>
     seen \<subseteq> v' \<and> start \<in> v'
     \<and> (\<forall>x \<in> v' - seen. x \<noteq> target \<and> (\<forall>y. (x, y) \<in> edge_rel conns \<longrightarrow> y \<in> v'))"
  "\<And>v'. canReach_outgoing conns out target seen = (False, v') \<Longrightarrow>
     seen \<subseteq> v' \<and> to_nodeId ` set out \<subseteq> v'
     \<and> (\<forall>x \<in> v' - seen. x \<noteq> target \<and> (\<forall>y. (x, y) \<in> edge_rel conns \<longrightarrow> y \<in> v'))"
proof (induction conns start target seen and conns out target seen
       rule: canReach_canReach_outgoing.induct)
  case (1 conns start target seen)
  from "1.prems" have ne: "start \<noteq> target" by (auto simp: canReach.simps split: if_splits)
  show ?case
  proof (cases "start \<in> seen")
    case True
    with "1.prems" ne have "v' = seen" by (simp add: canReach.simps)
    with True show ?thesis by simp
  next
    case False
    with "1.prems" ne have
      r: "canReach_outgoing conns (filter (\<lambda>c. from_nodeId c = start) conns) target
                (insert start seen) = (False, v')"
      by (simp add: canReach.simps)
    from "1.IH"[OF ne False r] have
      a: "insert start seen \<subseteq> v'"
      and b: "to_nodeId ` set (filter (\<lambda>c. from_nodeId c = start) conns) \<subseteq> v'"
      and c: "\<forall>x \<in> v' - insert start seen.
                x \<noteq> target \<and> (\<forall>y. (x, y) \<in> edge_rel conns \<longrightarrow> y \<in> v')"
      by blast+
    have d: "\<forall>y. (start, y) \<in> edge_rel conns \<longrightarrow> y \<in> v'"
      using b by (auto simp: edge_rel_def)
    have "x \<noteq> target \<and> (\<forall>y. (x, y) \<in> edge_rel conns \<longrightarrow> y \<in> v')"
      if "x \<in> v' - seen" for x
    proof (cases "x = start")
      case True
      with ne d show ?thesis by simp
    next
      case False
      with that have "x \<in> v' - insert start seen" by simp
      with c show ?thesis by (rule bspec)
    qed
    moreover have "seen \<subseteq> v'" "start \<in> v'" using a by simp_all
    ultimately show ?thesis by simp
  qed
next
  case (2 conns target seen)
  then have "v' = seen" by simp
  then show ?case by simp
next
  case (3 conns conn rest target seen)
  obtain found seen1 where
    s1: "canReach conns (to_nodeId conn) target seen = (found, seen1)"
    by (cases "canReach conns (to_nodeId conn) target seen")
  from "3.prems" s1 have nf: "\<not> found" by (cases found) simp_all
  with "3.prems" s1 have s2: "canReach_outgoing conns rest target seen1 = (False, v')" by simp
  from s1 nf have s1': "canReach conns (to_nodeId conn) target seen = (False, seen1)" by simp
  from "3.IH"(1)[OF s1'] have
    a1: "seen \<subseteq> seen1" "to_nodeId conn \<in> seen1"
    and c1: "\<forall>x \<in> seen1 - seen.
                x \<noteq> target \<and> (\<forall>y. (x, y) \<in> edge_rel conns \<longrightarrow> y \<in> seen1)"
    by blast+
  from "3.IH"(2)[OF s1[symmetric] nf s2] have
    a2: "seen1 \<subseteq> v'" "to_nodeId ` set rest \<subseteq> v'"
    and c2: "\<forall>x \<in> v' - seen1.
                x \<noteq> target \<and> (\<forall>y. (x, y) \<in> edge_rel conns \<longrightarrow> y \<in> v')"
    by blast+
  have "\<forall>x \<in> v' - seen. x \<noteq> target \<and> (\<forall>y. (x, y) \<in> edge_rel conns \<longrightarrow> y \<in> v')"
  proof
    fix x assume x: "x \<in> v' - seen"
    show "x \<noteq> target \<and> (\<forall>y. (x, y) \<in> edge_rel conns \<longrightarrow> y \<in> v')"
    proof (cases "x \<in> seen1")
      case True
      with x c1 a2(1) show ?thesis by blast
    next
      case False
      with x c2 show ?thesis by blast
    qed
  qed
  moreover have "seen \<subseteq> v'" using a1(1) a2(1) by (rule subset_trans)
  moreover have "to_nodeId ` set (conn # rest) \<subseteq> v'" using a1(2) a2 by auto
  ultimately show ?case by simp
qed


lemma canReach_iff:
  "fst (canReach conns start target {}) \<longleftrightarrow> (start, target) \<in> (edge_rel conns)\<^sup>*"
proof
  assume "fst (canReach conns start target {})"
  then obtain v' where "canReach conns start target {} = (True, v')"
    by (cases "canReach conns start target {}") auto
  then show "(start, target) \<in> (edge_rel conns)\<^sup>*" by (rule canReach_sound(1))
next
  assume r: "(start, target) \<in> (edge_rel conns)\<^sup>*"
  show "fst (canReach conns start target {})"
  proof (rule ccontr)
    assume "\<not> fst (canReach conns start target {})"
    then obtain v' where "canReach conns start target {} = (False, v')"
      by (cases "canReach conns start target {}") auto
    from canReach_closed(1)[OF this] have
      s: "start \<in> v'"
      and c: "\<forall>x \<in> v'. x \<noteq> target \<and> (\<forall>y. (x, y) \<in> edge_rel conns \<longrightarrow> y \<in> v')"
      by auto
    from r s have "target \<in> v'"
      by (induction rule: rtrancl_induct) (use c in blast)+
    with c show False by blast
  qed
qed

lemma wouldCreateCycle_iff:
  "wouldCreateCycle b conn \<longleftrightarrow> (to_nodeId conn, from_nodeId conn) \<in> (edges b)\<^sup>*"
  by (simp add: wouldCreateCycle_def canReach_iff edges_edge_rel)


lemma filter_other_ids:
  "distinct (map f xs) \<Longrightarrow> e \<in> set xs \<Longrightarrow> filter (\<lambda>c. f c \<noteq> f e) xs = remove1 e xs"
proof (induction xs)
  case Nil
  then show ?case by simp
next
  case (Cons x xs)
  show ?case
  proof (cases "x = e")
    case True
    then have "f e \<notin> f ` set xs" using Cons.prems(1) by simp
    then have "filter (\<lambda>c. f c \<noteq> f e) xs = xs"
      by (simp add: filter_id_conv image_iff) metis
    with True show ?thesis by simp
  next
    case False
    then have e: "e \<in> set xs" using Cons.prems(2) by simp
    then have "f x \<noteq> f e" using Cons.prems(1) by auto
    with False Cons.IH e Cons.prems(1) show ?thesis by simp
  qed
qed

lemma reach_without_incoming:
  assumes "(s, y) \<in> r\<^sup>*" and "\<And>a b. (a, b) \<in> r \<Longrightarrow> b \<noteq> s \<Longrightarrow> (a, b) \<in> r'"
  shows "(s, y) \<in> r'\<^sup>*"
  using assms(1)
proof (induction rule: rtrancl_induct)
  case base
  show ?case by simp
next
  case (step y z)
  show ?case
  proof (cases "z = s")
    case True
    then show ?thesis by simp
  next
    case False
    with step(2) assms(2) have "(y, z) \<in> r'" by blast
    with step(3) show ?thesis by (rule rtrancl_into_rtrancl)
  qed
qed

text \<open>
  What \<^verbatim>\<open>connect\<close> does when it rejects.  Every error but the cycle error leaves the
  counter and the builder as they were.  When the target reaches the source (connection
  ids being distinct), the call fails with the cycle error, the counter has advanced,
  and the connection list has lost the connection that occupied the target input, if
  there was one.  An accepted connection keeps an acyclic connection set acyclic.
\<close>

lemma connect_error_unchanged:
  assumes "connect counter b f fo t ti = (Inl e, counter', b')" and "e \<noteq> WouldCreateCycle"
  shows "counter' = counter \<and> b' = b"
  using assms
  by (auto simp: connect_def Let_def split: option.splits if_splits)

lemma connect_rejects_cycle:
  assumes src: "map_of (nodes b) f = Some fromNode"
    and tgt: "map_of (nodes b) t = Some toNode"
    and out: "map_of (node_outputs fromNode) fo \<noteq> None"
    and inp: "map_of (node_inputs toNode) ti \<noteq> None"
    and ids: "distinct (map conn_id (connections b))"
    and reach: "(t, f) \<in> (edges b)\<^sup>*"
  shows "connect counter b f fo t ti =
           (Inl WouldCreateCycle, Suc counter,
            b\<lparr>connections :=
                 (case find (\<lambda>c. to_nodeId c = t \<and> to_input c = ti) (connections b) of
                    None \<Rightarrow> connections b
                  | Some existingConn \<Rightarrow> remove1 existingConn (connections b))\<rparr>)"
proof -
  define b1 where "b1 =
     (case find (\<lambda>c. to_nodeId c = t \<and> to_input c = ti) (connections b) of
        None \<Rightarrow> b
      | Some existingConn \<Rightarrow>
          b\<lparr>connections := filter (\<lambda>c. conn_id c \<noteq> conn_id existingConn) (connections b)\<rparr>)"
  define new where "new = \<lparr>conn_id = ''conn-'' @ string_of_nat (Suc counter),
       from_nodeId = f, from_output = fo, to_nodeId = t, to_input = ti\<rparr>"
  have b1_eq: "b1 = b\<lparr>connections :=
                 (case find (\<lambda>c. to_nodeId c = t \<and> to_input c = ti) (connections b) of
                    None \<Rightarrow> connections b
                  | Some existingConn \<Rightarrow> remove1 existingConn (connections b))\<rparr>"
  proof (cases "find (\<lambda>c. to_nodeId c = t \<and> to_input c = ti) (connections b)")
    case None
    then show ?thesis by (simp add: b1_def)
  next
    case (Some e)
    then have "e \<in> set (connections b)" by (auto simp: find_Some_iff)
    from filter_other_ids[OF ids this] Some show ?thesis by (simp add: b1_def)
  qed
  have keep: "(x, y) \<in> edges b1" if "(x, y) \<in> edges b" "y \<noteq> t" for x y
  proof -
    from that obtain c where c: "c \<in> set (connections b)" "from_nodeId c = x" "to_nodeId c = y"
      by (auto simp: edges_def)
    have "c \<in> set (connections b1)"
    proof (cases "find (\<lambda>c. to_nodeId c = t \<and> to_input c = ti) (connections b)")
      case None
      with c show ?thesis by (simp add: b1_eq)
    next
      case (Some e)
      then have "to_nodeId e = t" by (auto simp: find_Some_iff)
      with c that(2) have "c \<noteq> e" by auto
      with c Some show ?thesis by (simp add: b1_eq)
    qed
    with c show ?thesis by (force simp: edges_def)
  qed
  have "(t, f) \<in> (edges b1)\<^sup>*"
    using reach_without_incoming[OF reach keep] by blast
  then have cyc: "wouldCreateCycle b1 new"
    by (simp add: wouldCreateCycle_iff new_def)
  have "connect counter b f fo t ti = (Inl WouldCreateCycle, Suc counter, b1)"
    using src tgt out inp cyc
    by (simp add: connect_def Let_def b1_def[symmetric] new_def)
  then show ?thesis by (simp add: b1_eq)
qed

lemma connect_keeps_acyclic:
  assumes ac: "acyclic (edges b)"
    and ok: "connect counter b f fo t ti = (Inr cid, counter', b')"
  shows "acyclic (edges b')"
proof -
  define b1 where "b1 =
     (case find (\<lambda>c. to_nodeId c = t \<and> to_input c = ti) (connections b) of
        None \<Rightarrow> b
      | Some existingConn \<Rightarrow>
          b\<lparr>connections := filter (\<lambda>c. conn_id c \<noteq> conn_id existingConn) (connections b)\<rparr>)"
  define new where "new = \<lparr>conn_id = ''conn-'' @ string_of_nat (Suc counter),
       from_nodeId = f, from_output = fo, to_nodeId = t, to_input = ti\<rparr>"
  from ok have nc: "\<not> wouldCreateCycle b1 new"
    and res: "connections b' = connections b1 @ [new]"
    by (auto simp: connect_def Let_def b1_def new_def split: option.splits if_splits)
  have "set (connections b1) \<subseteq> set (connections b)"
    by (auto simp: b1_def split: option.splits)
  then have "edges b1 \<subseteq> edges b" by (auto simp: edges_def)
  with ac have ac1: "acyclic (edges b1)" by (rule acyclic_subset)
  from nc have "(t, f) \<notin> (edges b1)\<^sup>*" by (simp add: wouldCreateCycle_iff new_def)
  with ac1 have "acyclic (insert (f, t) (edges b1))" by (simp add: acyclic_insert)
  moreover have "edges b' = insert (f, t) (edges b1)"
    using res by (auto simp: edges_def new_def)
  ultimately show ?thesis by simp
qed

section \<open>A rejected connection\<close>

text \<open>
  Claim C2 at a concrete input.  In \<open>cycle_attempt\<close> the input \<^verbatim>\<open>input2\<close> of
  \<^verbatim>\<open>effect-1\<close> is fed by \<^verbatim>\<open>source-1\<close>, and \<^verbatim>\<open>effect-1\<close> feeds \<^verbatim>\<open>effect-2\<close>.  Connecting
  \<^verbatim>\<open>effect-2\<close> to that input is rejected with the cycle error, as the target reaches
  the source; but the connection that occupied the input was filtered out before the
  check, and the builder is left without it.
\<close>

theorem connect_cycle_loses_occupant:
  "connect 2 cycle_attempt ''effect-2'' ''output'' ''effect-1'' ''input2''
     = (Inl WouldCreateCycle, 3, cycle_attempt\<lparr>connections := [effect1_to_effect2]\<rparr>)
   \<and> getConnections cycle_attempt = [source_to_input2, effect1_to_effect2]
   \<and> source_to_input2 \<noteq> effect1_to_effect2"
  by (simp add: connect_def cycle_attempt_def two_input_effect_def source_to_input2_def
        effect1_to_effect2_def createSourceNode_def createEffectNode_def texture_input_def
        texture_output_def wouldCreateCycle_def canReach.simps getConnections_def Let_def)


section \<open>Compositing with a blend node\<close>



text \<open>
  Claim C6 fails on the code: with every channel of both opaque colours at one half,
  the shader of a multiply blend node at opacity one half yields \<open>3/8\<close> for the red
  channel, while \<open>base * (0.5 * blend + 0.5 * base)\<close> is \<open>1/4\<close>.
\<close>

theorem multiply_half_opacity_counterexample:
  "cr (blend_shader_main Multiply (1 / 2)
         \<lparr>cr = 1 / 2, cg = 1 / 2, cb = 1 / 2, ca = 1\<rparr> \<lparr>cr = 1 / 2, cg = 1 / 2, cb = 1 / 2, ca = 1\<rparr>)
   \<noteq> 1 / 2 * (1 / 2 * (1 / 2) + 1 / 2 * (1 / 2))"
  by (simp add: blend_shader_main_def blend_multiply_def alpha_composite_over_def
        per_channel_def Let_def)

text \<open>
  Claim C6 as amended.  For all channel values in \<open>[0, 1]\<close> of two opaque colours, the
  shader of a multiply blend node at opacity one half yields \<open>base * (0.5 * blend + 0.5)\<close>
  in every colour channel, and alpha one: the blended colour \<open>base * blend\<close> and the
  base colour are mixed half and half.
\<close>

theorem multiply_half_opacity_over_opaque:
  assumes "0 \<le> r1" "r1 \<le> 1" "0 \<le> g1" "g1 \<le> 1" "0 \<le> b1" "b1 \<le> 1"
    and "0 \<le> r2" "r2 \<le> 1" "0 \<le> g2" "g2 \<le> 1" "0 \<le> b2" "b2 \<le> 1"
  shows "blend_shader_main Multiply (1 / 2)
     \<lparr>cr = r1, cg = g1, cb = b1, ca = 1\<rparr> \<lparr>cr = r2, cg = g2, cb = b2, ca = 1\<rparr>
   = \<lparr>cr = r1 * (1 / 2 * r2 + 1 / 2), cg = g1 * (1 / 2 * g2 + 1 / 2),
      cb = b1 * (1 / 2 * b2 + 1 / 2), ca = 1\<rparr>"
  by (simp add: blend_shader_main_def blend_multiply_def alpha_composite_over_def
        per_channel_def Let_def algebra_simps)

theorem multiply_half_opacity_over_opaque_witness:
  "(0::real) \<le> 1 / 2 \<and> (1 / 2 :: real) \<le> 1
   \<and> blend_shader_main Multiply (1 / 2)
       \<lparr>cr = 1 / 2, cg = 1 / 2, cb = 1 / 2, ca = 1\<rparr> \<lparr>cr = 1 / 2, cg = 1 / 2, cb = 1 / 2, ca = 1\<rparr>
     = \<lparr>cr = 3 / 8, cg = 3 / 8, cb = 3 / 8, ca = 1\<rparr>"
proof -
  have h: "(0::real) \<le> 1 / 2" "(1 / 2 :: real) \<le> 1" by simp_all
  have "blend_shader_main Multiply (1 / 2)
       \<lparr>cr = 1 / 2, cg = 1 / 2, cb = 1 / 2, ca = 1\<rparr> \<lparr>cr = 1 / 2, cg = 1 / 2, cb = 1 / 2, ca = 1\<rparr>
     = \<lparr>cr = 1 / 2 * (1 / 2 * (1 / 2) + 1 / 2), cg = 1 / 2 * (1 / 2 * (1 / 2) + 1 / 2),
        cb = 1 / 2 * (1 / 2 * (1 / 2) + 1 / 2), ca = 1\<rparr>"
    by (rule multiply_half_opacity_over_opaque) (rule h)+
  then show ?thesis by simp
qed

section \<open>Merging passes\<close>

lemma map_of_namespace_hit:
  "map_of (namespace_uniforms p us) (p @ name) = map_of us name"
  by (induction us) (auto simp: namespace_uniforms_def)

lemma map_of_namespace_miss:
  "take (length p) k \<noteq> p \<Longrightarrow> map_of (namespace_uniforms p us) k = None"
  by (induction us) (auto simp: namespace_uniforms_def)

lemma map_of_namespace:
  "map_of (namespace_uniforms p us) k =
     (if take (length p) k = p then map_of us (drop (length p) k) else None)"
proof (cases "take (length p) k = p")
  case True
  then have "k = p @ drop (length p) k" by (metis append_take_drop_id)
  then show ?thesis using map_of_namespace_hit[of p us "drop (length p) k"] True by simp
next
  case False
  then show ?thesis by (simp add: map_of_namespace_miss)
qed

text \<open>
  Claim C3.  The pass \<^verbatim>\<open>mergeTwoPasses(A, B)\<close> has the nodes of A followed by those of B,
  the inputs of A, the output of B, the id \<^verbatim>\<open>merged-\<close>A.id\<^verbatim>\<open>-\<close>B.id, and as uniforms
  exactly: under \<^verbatim>\<open>pass0_\<close>name what A has under name, under \<^verbatim>\<open>pass1_\<close>name what B has
  under name, and nothing under any other key.
\<close>

theorem mergeTwoPasses_fields:
  "pass_nodes (mergeTwoPasses passA passB) = pass_nodes passA @ pass_nodes passB
   \<and> pass_inputs (mergeTwoPasses passA passB) = pass_inputs passA
   \<and> pass_output (mergeTwoPasses passA passB) = pass_output passB
   \<and> pass_id (mergeTwoPasses passA passB) = ''merged-'' @ pass_id passA @ ''-'' @ pass_id passB
   \<and> map_of (pass_uniforms (mergeTwoPasses passA passB)) =
       (\<lambda>k. if take 6 k = ''pass0_'' then map_of (pass_uniforms passA) (drop 6 k)
            else if take 6 k = ''pass1_'' then map_of (pass_uniforms passB) (drop 6 k)
            else None)"
proof -
  have l0: "length ''pass0_'' = 6" and l1: "length ''pass1_'' = 6" by simp_all
  note n0 = map_of_namespace[of "''pass0_''", unfolded l0]
  note n1 = map_of_namespace[of "''pass1_''", unfolded l1]
  have "map_of (pass_uniforms (mergeTwoPasses passA passB)) k =
       (if take 6 k = ''pass0_'' then map_of (pass_uniforms passA) (drop 6 k)
            else if take 6 k = ''pass1_'' then map_of (pass_uniforms passB) (drop 6 k)
            else None)" for k
  proof (cases "take 6 k = ''pass0_''")
    case True
    then have "take 6 k \<noteq> ''pass1_''" by simp
    with True show ?thesis
      by (simp add: mergeTwoPasses_def map_add_def n0 n1 split: option.splits)
  next
    case False
    then show ?thesis
      by (simp add: mergeTwoPasses_def map_add_def n0 n1 split: option.splits)
  qed
  then have "map_of (pass_uniforms (mergeTwoPasses passA passB)) =
       (\<lambda>k. if take 6 k = ''pass0_'' then map_of (pass_uniforms passA) (drop 6 k)
            else if take 6 k = ''pass1_'' then map_of (pass_uniforms passB) (drop 6 k)
            else None)"
    by (intro ext)
  then show ?thesis by (simp add: mergeTwoPasses_def)
qed


text \<open>The expectations of \<^verbatim>\<open>pass-merger.test.ts\<close> hold of the model.\<close>

lemma getNodeCategory_tests:
  "getNodeCategory ''brightness'' = CatColor"
  "getNodeCategory ''contrast'' = CatColor"
  "getNodeCategory ''saturation'' = CatColor"
  "getNodeCategory ''opacity'' = CatColor"
  "getNodeCategory ''brightness-contrast'' = CatColor"
  "getNodeCategory ''scale'' = CatTransform"
  "getNodeCategory ''rotate'' = CatTransform"
  "getNodeCategory ''translate'' = CatTransform"
  "getNodeCategory ''transform'' = CatTransform"
  "getNodeCategory ''flip'' = CatTransform"
  "getNodeCategory ''crop'' = CatTransform"
  "getNodeCategory ''blur'' = CatBlur"
  "getNodeCategory ''gaussian-blur'' = CatBlur"
  "getNodeCategory ''fast-blur'' = CatBlur"
  "getNodeCategory ''blend'' = CatBlend"
  "getNodeCategory ''multiply-blend'' = CatBlend"
  "getNodeCategory ''screen-blend'' = CatBlend"
  "getNodeCategory ''custom-effect'' = CatUnknown"
  "getNodeCategory ''my-filter'' = CatUnknown"
  by (simp_all add: getNodeCategory_def)

lemma pass_categories:
  "getPassCategory brightness_pass = CatColor"
  "getPassCategory contrast_pass = CatColor"
  "getPassCategory saturation_pass = CatColor"
  "getPassCategory blend_pass = CatBlend"
  "getPassCategory scale_pass = CatTransform"
  by (simp_all add: getPassCategory_def getNodeCategory_def brightness_pass_def contrast_pass_def
        saturation_pass_def blend_pass_def scale_pass_def)

lemma canMergePasses_tests:
  "canMergePasses brightness_pass contrast_pass"
  "\<not> canMergePasses brightness_pass (contrast_pass\<lparr>pass_inputs := [''other-source'']\<rparr>)"
  "\<not> canMergePasses brightness_pass blend_pass"
  "\<not> canMergePasses brightness_pass scale_pass"
  by (simp_all add: canMergePasses_def pass_categories)
     (simp_all add: getPassCategory_def brightness_pass_def contrast_pass_def blend_pass_def scale_pass_def)

lemma merge_tests:
  "length (passes (merge [brightness_pass, contrast_pass, saturation_pass])) = 1"
  "mergedCount (merge [brightness_pass, contrast_pass, saturation_pass]) = 2"
  "originalCount (merge [brightness_pass, contrast_pass, saturation_pass]) = 3"
  "passes (merge []) = []"
  "passes (merge [brightness_pass, scale_pass]) = [brightness_pass, scale_pass]"
  by (simp_all add: merge_def canMergePasses_def mergeTwoPasses_def getPassCategory_def
        getNodeCategory_def brightness_pass_def contrast_pass_def saturation_pass_def
        scale_pass_def)

lemma mergeTwoPasses_tests:
  "pass_nodes (mergeTwoPasses brightness_pass saturation_pass) = [''brightness-1'', ''saturation-1'']"
  "pass_inputs (mergeTwoPasses brightness_pass saturation_pass) = [''source'']"
  "pass_output (mergeTwoPasses brightness_pass saturation_pass) = ''screen''"
  "pass_id (mergeTwoPasses brightness_pass contrast_pass) = ''merged-pass-0-pass-1''"
  "map_of (pass_uniforms (mergeTwoPasses brightness_pass contrast_pass)) ''pass0_amount''
     = Some (PNum (6 / 5))"
  "map_of (pass_uniforms (mergeTwoPasses brightness_pass contrast_pass)) ''pass1_amount''
     = Some (PNum (3 / 2))"
  by (simp_all add: mergeTwoPasses_def namespace_uniforms_def brightness_pass_def
        contrast_pass_def saturation_pass_def)

lemma merge_from_groups:
  "\<exists>g gs. g @ concat gs = rest \<and> [] \<notin> set gs
     \<and> merge_from cur rest
         = foldl mergeTwoPasses cur g # map (\<lambda>h. foldl mergeTwoPasses (hd h) (tl h)) gs
     \<and> (\<forall>p \<in> set g. length (pass_inputs p) = 1)
     \<and> (\<forall>h \<in> set gs. \<forall>p \<in> set (tl h). length (pass_inputs p) = 1)"
proof (induction rest arbitrary: cur)
  case Nil
  show ?case by (rule exI[of _ "[]"], rule exI[of _ "[]"]) simp
next
  case (Cons candidate rest)
  show ?case
  proof (cases "canMergePasses cur candidate")
    case True
    from Cons.IH[of "mergeTwoPasses cur candidate"] obtain g gs where
      a: "g @ concat gs = rest" "[] \<notin> set gs"
      and b: "merge_from (mergeTwoPasses cur candidate) rest
         = foldl mergeTwoPasses (mergeTwoPasses cur candidate) g
           # map (\<lambda>h. foldl mergeTwoPasses (hd h) (tl h)) gs"
      and c: "\<forall>p \<in> set g. length (pass_inputs p) = 1"
        "\<forall>h \<in> set gs. \<forall>p \<in> set (tl h). length (pass_inputs p) = 1"
      by blast
    from True have "length (pass_inputs candidate) = 1" by (simp add: canMergePasses_def)
    with a b c True show ?thesis
      by (intro exI[of _ "candidate # g"] exI[of _ gs]) simp
  next
    case False
    from Cons.IH[of candidate] obtain g gs where
      a: "g @ concat gs = rest" "[] \<notin> set gs"
      and b: "merge_from candidate rest
         = foldl mergeTwoPasses candidate g # map (\<lambda>h. foldl mergeTwoPasses (hd h) (tl h)) gs"
      and c: "\<forall>p \<in> set g. length (pass_inputs p) = 1"
        "\<forall>h \<in> set gs. \<forall>p \<in> set (tl h). length (pass_inputs p) = 1"
      by blast
    with False show ?thesis
      by (intro exI[of _ "[]"] exI[of _ "(candidate # g) # gs"]) simp
  qed
qed

lemma merge_groups:
  "\<exists>groups. concat groups = ps \<and> [] \<notin> set groups
     \<and> passes (merge ps) = map (\<lambda>g. foldl mergeTwoPasses (hd g) (tl g)) groups
     \<and> (\<forall>g \<in> set groups. \<forall>p \<in> set (tl g). length (pass_inputs p) = 1)"
proof (cases ps)
  case Nil
  then show ?thesis by (intro exI[of _ "[]"]) (simp add: merge_def)
next
  case (Cons p rest)
  from merge_from_groups[of rest p] obtain g gs where
    a: "g @ concat gs = rest" "[] \<notin> set gs"
    and b: "merge_from p rest
         = foldl mergeTwoPasses p g # map (\<lambda>h. foldl mergeTwoPasses (hd h) (tl h)) gs"
    and c: "\<forall>p \<in> set g. length (pass_inputs p) = 1"
      "\<forall>h \<in> set gs. \<forall>p \<in> set (tl h). length (pass_inputs p) = 1"
    by blast
  with Cons show ?thesis
    by (intro exI[of _ "(p # g) # gs"]) (simp add: merge_def)
qed

text \<open>
  Claim C4.  \<^verbatim>\<open>canMergePasses(A, B)\<close> holds exactly when the inputs of B are the one-element
  list of A's output, both passes have the same category, and that category is not
  unknown; so a pass whose inputs list has a length other than one is never eligible as
  the consumer.  Consequently \<^verbatim>\<open>merge\<close> cuts any pass list into consecutive non-empty
  groups, fuses each group from the left, and every pass of a group but its first (every
  pass fused into its predecessor) has exactly one input.
\<close>

theorem canMergePasses_single_input:
  "(canMergePasses passA passB \<longleftrightarrow>
      pass_inputs passB = [pass_output passA]
      \<and> getPassCategory passA = getPassCategory passB
      \<and> getPassCategory passA \<noteq> CatUnknown)
   \<and> (length (pass_inputs passB) \<noteq> 1 \<longrightarrow> \<not> canMergePasses passA passB)
   \<and> (\<exists>groups. concat groups = ps \<and> [] \<notin> set groups
         \<and> passes (merge ps) = map (\<lambda>g. foldl mergeTwoPasses (hd g) (tl g)) groups
         \<and> (\<forall>g \<in> set groups. \<forall>p \<in> set (tl g). length (pass_inputs p) = 1))"
proof -
  have 1: "canMergePasses passA passB \<longleftrightarrow>
      pass_inputs passB = [pass_output passA]
      \<and> getPassCategory passA = getPassCategory passB
      \<and> getPassCategory passA \<noteq> CatUnknown"
    by (simp add: canMergePasses_def)
  have 2: "length (pass_inputs passB) \<noteq> 1 \<longrightarrow> \<not> canMergePasses passA passB"
    by (auto simp: canMergePasses_def)
  from 1 2 merge_groups[of ps] show ?thesis by blast
qed

theorem canMergePasses_single_input_witness:
  "length (pass_inputs blend_pass) \<noteq> 1
   \<and> \<not> canMergePasses brightness_pass blend_pass
   \<and> passes (merge [brightness_pass, blend_pass]) = [brightness_pass, blend_pass]"
proof -
  have h: "length (pass_inputs blend_pass) \<noteq> 1" by (simp add: blend_pass_def)
  with canMergePasses_single_input[of brightness_pass blend_pass "[brightness_pass, blend_pass]"]
  have n: "\<not> canMergePasses brightness_pass blend_pass" by blast
  then have "passes (merge [brightness_pass, blend_pass]) = [brightness_pass, blend_pass]"
    by (simp add: merge_def)
  with h n show ?thesis by simp
qed

end
